theory Spec2Isabelle
  imports Complex_Main "HOL-Library.Monad_Syntax" "HOL-Library.Multiset"
begin

section \<open>Filtering@k on attribute-sorted result lists: the model\<close>

text \<open>
  The C++ sources are embedded function by function. Scores and relevances
  (\<open>std::float_t\<close>) are the real numbers they stand for, and every arithmetic operation on
  them is followed by the rounding of the format it is done in. The exponent of a rounded
  value has no upper bound: an operation whose result is beyond the largest finite
  \<open>float\<close> gives an infinity in the program and is not represented here, nor is a NaN; the
  theorems that depend on the values of scores bound the gains. \<open>std::pow\<close> and
  \<open>std::log2\<close> are taken to be correctly rounded. Indices and sizes are natural
  numbers; where the source computes a size in 32-bit arithmetic the wrap-around is written
  out. Every read of a raw array is checked: a read out of bounds, a read of a cell that was
  never written, a failed \<open>assert\<close> and any other undefined behaviour is the value
  \<open>None\<close>.
\<close>

subsection \<open>Raw arrays and loops\<close>

text \<open>A raw array from \<open>new T[n]\<close>: its cells start uninitialised (\<open>None\<close>).\<close>

type_synonym 'a array = "'a option list"

definition new_array :: "nat \<Rightarrow> 'a array" where
  "new_array n = replicate n None"

definition load :: "'a array \<Rightarrow> nat \<Rightarrow> 'a option" where
  "load a i = (if i < length a then a ! i else None)"

definition store :: "'a array \<Rightarrow> nat \<Rightarrow> 'a \<Rightarrow> 'a array option" where
  "store a i v = (if i < length a then Some (a[i := Some v]) else None)"

text \<open>A read of an initialised sequence (an input list, a \<open>std::vector\<close>).\<close>

definition get :: "'a list \<Rightarrow> nat \<Rightarrow> 'a option" where
  "get xs i = (if i < length xs then Some (xs ! i) else None)"

text \<open>A counted \<open>for\<close> loop whose body may fail: the body runs for each counter value in turn.\<close>

fun for_each :: "nat list \<Rightarrow> (nat \<Rightarrow> 's \<Rightarrow> 's option) \<Rightarrow> 's \<Rightarrow> 's option" where
  "for_each [] body s = Some s"
| "for_each (i # js) body s = body i s \<bind> for_each js body"

subsection \<open>Floating-point arithmetic\<close>

text \<open>
  A \<open>float\<close> or a \<open>double\<close> is the real number it stands for. An arithmetic operation of the
  source is the exact operation followed by the rounding of its result to the format in which
  the operation is done: to the nearest value of the format, a tie going to the value with an
  even significand. \<open>round_to p emin\<close> is this rounding for a significand of \<open>p\<close> bits and a
  least exponent \<open>emin\<close>; below \<open>2 ^ emin\<close> the values of the format are equally spaced
  (the subnormal numbers).
\<close>

definition round_even :: "real \<Rightarrow> int" where
  "round_even x =
     (let f = \<lfloor>x\<rfloor>
      in if x - of_int f < 1 / 2 then f
         else if x - of_int f > 1 / 2 then f + 1
         else if even f then f else f + 1)"

definition binade :: "int \<Rightarrow> real \<Rightarrow> int" where
  "binade emin x = max \<lfloor>log 2 \<bar>x\<bar>\<rfloor> emin"

definition ulp :: "nat \<Rightarrow> int \<Rightarrow> real \<Rightarrow> real" where
  "ulp p emin x = 2 powr real_of_int (binade emin x - int p + 1)"

definition round_to :: "nat \<Rightarrow> int \<Rightarrow> real \<Rightarrow> real" where
  "round_to p emin x =
     (if x = 0 then 0 else real_of_int (round_even (x / ulp p emin x)) * ulp p emin x)"

text \<open>
  \<open>float32\<close> rounds to a \<open>float\<close> (the \<open>score_type\<close> and \<open>relevance_type\<close> of types.hpp,
  \<open>std::float_t\<close> where expressions are evaluated in their own type) and \<open>float64\<close> to a
  \<open>double\<close>.
\<close>

definition float32 :: "real \<Rightarrow> real" where
  "float32 = round_to 24 (- 126)"

definition float64 :: "real \<Rightarrow> real" where
  "float64 = round_to 53 (- 1022)"

subsection \<open>Types (types.hpp, filter.hpp, pruner.hpp)\<close>

record minmax_type =
  min_rel :: real
  max_rel :: real

record FilterSolution =
  score :: real
  indices :: "nat list"

type_synonym PrunerSolution = "nat list"

subsection \<open>Metrics (search\_quality\_metric.hpp)\<close>

datatype metric = DCG | DCGlz

text \<open>
  A score function object: which metric it is and the \<open>max_position\<close> its tables were
  built for.
\<close>

record score_fun =
  metric_of :: metric
  max_position :: nat

definition gain_factor :: "score_fun \<Rightarrow> real \<Rightarrow> real" where
  "gain_factor sf relevance =
     (case metric_of sf of
        DCG \<Rightarrow> float32 (float64 (float64 (2 powr relevance) - 1))
      | DCGlz \<Rightarrow> relevance)"

definition gain_factor_inverse :: "score_fun \<Rightarrow> real \<Rightarrow> real" where
  "gain_factor_inverse sf gain =
     (case metric_of sf of
        DCG \<Rightarrow> float32 (float64 (log 2 (float64 (gain + 1))))
      | DCGlz \<Rightarrow> gain)"

text \<open>The value \<open>compute_discounts\<close> stores at index \<open>i\<close>.\<close>

definition discount_at :: "metric \<Rightarrow> nat \<Rightarrow> real" where
  "discount_at m i =
     (if i = 0 then 0
      else case m of
             DCG \<Rightarrow> float32 (float64 (1 / float64 (log 2 (real i + 1))))
           | DCGlz \<Rightarrow> float32 (float64 (1 / real i)))"

definition compute_discounts :: "metric \<Rightarrow> nat \<Rightarrow> real list" where
  "compute_discounts m n = map (discount_at m) [0..<n + 1]"

fun compute_discount_sums :: "nat \<Rightarrow> real list \<Rightarrow> real list" where
  "compute_discount_sums 0 discounts = [0]"
| "compute_discount_sums (Suc i) discounts =
     (let table = compute_discount_sums i discounts
      in table @ [float32 (last table + discounts ! Suc i)])"

definition discount_factor :: "score_fun \<Rightarrow> nat \<Rightarrow> real option" where
  "discount_factor sf position =
     get (compute_discounts (metric_of sf) (max_position sf)) position"

definition discount_factor_sum :: "score_fun \<Rightarrow> nat \<Rightarrow> nat \<Rightarrow> real option" where
  "discount_factor_sum sf left_included right_included =
     (let table = compute_discount_sums (max_position sf)
                   (compute_discounts (metric_of sf) (max_position sf))
      in if left_included = 0 then None
         else do {
           r \<leftarrow> get table right_included;
           l \<leftarrow> get table (left_included - 1);
           Some (float32 (r - l))
         })"

subsection \<open>The exact filter (filter\_spirin.hpp)\<close>

text \<open>
  The number of cells of \<open>M\<close>, as \<open>new score_type[((k - 1) * (k - 1 + 1) / 2) + k * (n - (k - 1))]\<close>
  computes it: \<open>k\<close> is a 16-bit unsigned value promoted to \<open>int\<close>, so the first summand is
  signed 32-bit arithmetic (an overflow is undefined); \<open>n\<close> is a 32-bit unsigned value, so the
  difference, the product and the sum are taken modulo \<open>2 ^ 32\<close>.
\<close>

definition M_cells :: "nat \<Rightarrow> nat \<Rightarrow> nat option" where
  "M_cells k n =
     (if (k - 1) * (k - 1 + 1) < 2 ^ 31
      then Some (((k - 1) * (k - 1 + 1) div 2
                  + (k * ((n + 2 ^ 32 - (k - 1)) mod 2 ^ 32)) mod 2 ^ 32) mod 2 ^ 32)
      else None)"

text \<open>The size of \<open>buffer\<close>: \<open>n + k\<close> in 32-bit unsigned arithmetic.\<close>

definition buffer_cells :: "nat \<Rightarrow> nat \<Rightarrow> nat" where
  "buffer_cells k n = (n + k) mod 2 ^ 32"

text \<open>
  The two loops that fill \<open>buffer\<close>: \<open>gains\<close> is \<open>buffer\<close> itself and \<open>discounts\<close> is
  \<open>buffer + n\<close>.
\<close>

definition fill_buffer ::
  "score_fun \<Rightarrow> real list \<Rightarrow> nat \<Rightarrow> nat \<Rightarrow> real array \<Rightarrow> real array option" where
  "fill_buffer sf rel_list n k buffer = do {
     buffer \<leftarrow> for_each [0..<k] (\<lambda>i buffer. do {
         r \<leftarrow> get rel_list i;
         buffer \<leftarrow> store buffer i (gain_factor sf r);
         d \<leftarrow> discount_factor sf (i + 1);
         store buffer (n + i) d
       }) buffer;
     for_each [k..<n] (\<lambda>i buffer. do {
         r \<leftarrow> get rel_list i;
         store buffer i (gain_factor sf r)
       }) buffer
   }"

text \<open>\<open>M[curr_row_shift + 0] = std::max(M[prev_row_shift + 0], gains[row] * discounts[0])\<close>\<close>

definition first_cell ::
  "real array \<Rightarrow> nat \<Rightarrow> nat \<Rightarrow> nat \<Rightarrow> nat \<Rightarrow> real array \<Rightarrow> real array option" where
  "first_cell buffer n prev_row_shift curr_row_shift row M = do {
     a \<leftarrow> load M (prev_row_shift + 0);
     g \<leftarrow> load buffer row;
     d \<leftarrow> load buffer (n + 0);
     store M (curr_row_shift + 0) (max a (float32 (g * d)))
   }"

text \<open>
  \<open>M[curr_row_shift + col] = std::max(M[prev_row_shift + col],
     M[prev_row_shift + col - 1] + gains[row] * discounts[col])\<close>
\<close>

definition inner_cell ::
  "real array \<Rightarrow> nat \<Rightarrow> nat \<Rightarrow> nat \<Rightarrow> nat \<Rightarrow> nat \<Rightarrow> real array \<Rightarrow> real array option" where
  "inner_cell buffer n prev_row_shift curr_row_shift row col M = do {
     a \<leftarrow> load M (prev_row_shift + col);
     b \<leftarrow> load M (prev_row_shift + col - 1);
     g \<leftarrow> load buffer row;
     d \<leftarrow> load buffer (n + col);
     store M (curr_row_shift + col) (max a (float32 (b + float32 (g * d))))
   }"

text \<open>One row of the triangular block; the state is \<open>(prev_row_shift, curr_row_shift, M)\<close>.\<close>

definition triangular_row ::
  "real array \<Rightarrow> nat \<Rightarrow> nat \<Rightarrow> nat \<times> nat \<times> real array \<Rightarrow> (nat \<times> nat \<times> real array) option" where
  "triangular_row buffer n row = (\<lambda>(prev_row_shift, curr_row_shift, M). do {
     let curr_row_shift = prev_row_shift + row;
     M \<leftarrow> first_cell buffer n prev_row_shift curr_row_shift row M;
     M \<leftarrow> for_each [1..<row] (inner_cell buffer n prev_row_shift curr_row_shift row) M;
     b \<leftarrow> load M (prev_row_shift + row - 1);
     g \<leftarrow> load buffer row;
     d \<leftarrow> load buffer (n + row);
     M \<leftarrow> store M (curr_row_shift + row) (float32 (b + float32 (g * d)));
     Some (curr_row_shift, curr_row_shift, M)
   })"

text \<open>One row of the rectangular block.\<close>

definition rectangular_row ::
  "real array \<Rightarrow> nat \<Rightarrow> nat \<Rightarrow> nat \<Rightarrow> nat \<times> nat \<times> real array \<Rightarrow> (nat \<times> nat \<times> real array) option" where
  "rectangular_row buffer n k row = (\<lambda>(prev_row_shift, curr_row_shift, M). do {
     let curr_row_shift = prev_row_shift + k;
     M \<leftarrow> first_cell buffer n prev_row_shift curr_row_shift row M;
     M \<leftarrow> for_each [1..<k] (inner_cell buffer n prev_row_shift curr_row_shift row) M;
     Some (curr_row_shift, curr_row_shift, M)
   })"

text \<open>The search for the best score within the last row; the state is \<open>(score, best_column)\<close>.\<close>

definition best_in_row :: "real array \<Rightarrow> nat \<Rightarrow> nat \<Rightarrow> real \<times> nat \<Rightarrow> (real \<times> nat) option" where
  "best_in_row M curr_row_shift col = (\<lambda>(sc, best_column). do {
     v \<leftarrow> load M (curr_row_shift + col);
     Some (if v > sc then (v, col) else (sc, best_column))
   })"

text \<open>
  The loop that goes back through the rows, from \<open>row\<close> down to 1; the state is
  \<open>(curr_row_shift, best_column, indices)\<close>. \<open>best_column\<close> is a 32-bit unsigned value:
  \<open>best_column-- == 0\<close> leaves it at \<open>2 ^ 32 - 1\<close> when the loop breaks. The
  \<open>assert\<close> guards the unsigned subtraction that follows it.
\<close>

fun trace_back ::
  "real array \<Rightarrow> nat \<Rightarrow> nat \<Rightarrow> nat \<times> nat \<times> nat list \<Rightarrow> (nat \<times> nat \<times> nat list) option" where
  "trace_back M k 0 st = Some st"
| "trace_back M k (Suc r) (curr_row_shift, best_column, idx) =
     (if curr_row_shift < Suc r then None
      else do {
        let prev_row_shift = curr_row_shift - (if Suc r < k then Suc r else k);
        a \<leftarrow> load M (curr_row_shift + best_column);
        b \<leftarrow> load M (prev_row_shift + best_column);
        if a > b
        then (if best_column = 0 then Some (curr_row_shift, 2 ^ 32 - 1, idx @ [Suc r])
              else trace_back M k r (prev_row_shift, best_column - 1, idx @ [Suc r]))
        else trace_back M k r (prev_row_shift, best_column, idx)
      })"

definition filter_impl :: "score_fun \<Rightarrow> nat \<Rightarrow> real list \<Rightarrow> nat \<Rightarrow> FilterSolution option" where
  "filter_impl sf this_k rel_list n =
     (if n = 0 \<or> this_k = 0 then Some \<lparr>score = 0, indices = []\<rparr>
      else do {
        let k = (if this_k > n then n else this_k);
        cells \<leftarrow> M_cells k n;
        let M = new_array cells;
        let buffer = new_array (buffer_cells k n);
        buffer \<leftarrow> fill_buffer sf rel_list n k buffer;
        g \<leftarrow> load buffer 0;
        d \<leftarrow> load buffer (n + 0);
        M \<leftarrow> store M 0 (float32 (g * d));
        (prev_row_shift, curr_row_shift, M) \<leftarrow>
          for_each [1..<k] (triangular_row buffer n) (0, 0, M);
        (prev_row_shift, curr_row_shift, M) \<leftarrow>
          for_each [k..<n] (rectangular_row buffer n k) (prev_row_shift, curr_row_shift, M);
        (sc, best_column) \<leftarrow> for_each [0..<k] (best_in_row M curr_row_shift) (0, 0);
        (curr_row_shift, best_column, idx) \<leftarrow>
          trace_back M k (n - 1) (curr_row_shift, best_column, []);
        let idx = (if curr_row_shift = 0 then idx @ [0] else idx);
        if best_column = 2 ^ 32 - 1 \<or> curr_row_shift = 0
        then Some \<lparr>score = sc, indices = rev idx\<rparr>
        else None
      })"

text \<open>\<open>FilterSpirin::operator()\<close> on a list and its length.\<close>

definition FilterSpirin :: "nat \<Rightarrow> score_fun \<Rightarrow> real list \<Rightarrow> nat \<Rightarrow> FilterSolution option" where
  "FilterSpirin k sf rel_list n = filter_impl sf k rel_list n"

subsection \<open>The cutoff pruner (pruner\_cutoff.hpp)\<close>

definition PrunerCutoff :: "real list \<Rightarrow> nat \<Rightarrow> minmax_type \<Rightarrow> PrunerSolution option" where
  "PrunerCutoff rel_list n minmax_element =
     (let cutoff = float32 (float64 (float64 (0.5 * min_rel minmax_element)
                                       + float64 (0.5 * max_rel minmax_element)))
      in for_each [0..<n] (\<lambda>i solution. do {
           r \<leftarrow> get rel_list i;
           Some (if r \<ge> cutoff then solution @ [i] else solution)
         }) [])"

subsection \<open>The binary heap (heapq.hpp)\<close>

text \<open>
  A heap is a \<open>std::vector\<close>, here a list; the comparator \<open>cmp\<close> is the template argument
  \<open>_Compare\<close> (\<open>std::less\<close> when none is given). Positions are \<open>std::size_t\<close>, wide enough
  for every position of a vector. \<open>parent\<close> is only called on positive positions.
\<close>

definition parent :: "nat \<Rightarrow> nat" where
  "parent pos = (pos - 1) div 2"

definition left :: "nat \<Rightarrow> nat" where
  "left pos = 2 * pos + 1"

text \<open>
  The first half of the body of the loop of \<open>percolate_down\<close>: the position of the smallest
  among \<open>pos\<close> and its children. It is only used when the left child exists.
\<close>

definition smallest_of :: "('a \<Rightarrow> 'a \<Rightarrow> bool) \<Rightarrow> 'a list \<Rightarrow> nat \<Rightarrow> nat" where
  "smallest_of cmp heap pos =
     (let l = left pos;
          r = l + 1;
          smallest = (if cmp (heap ! l) (heap ! pos) then l else pos)
      in if r < length heap \<and> cmp (heap ! r) (heap ! smallest) then r else smallest)"

lemma smallest_of_cases:
  "smallest_of cmp heap pos = pos \<or> smallest_of cmp heap pos = left pos
   \<or> (smallest_of cmp heap pos = left pos + 1 \<and> left pos + 1 < length heap)"
  by (simp add: smallest_of_def Let_def)

lemma smallest_of_less:
  "left pos < length heap \<Longrightarrow> smallest_of cmp heap pos < length heap"
  using smallest_of_cases [of cmp heap pos] by (auto simp: left_def)

lemma smallest_of_greater:
  "smallest_of cmp heap pos \<noteq> pos \<Longrightarrow> pos < smallest_of cmp heap pos"
  using smallest_of_cases [of cmp heap pos] by (auto simp: left_def)

text \<open>The loop \<open>while (true)\<close> of \<open>percolate_down\<close>; it ends because the position grows.\<close>

function percolate_down :: "('a \<Rightarrow> 'a \<Rightarrow> bool) \<Rightarrow> 'a list \<Rightarrow> nat \<Rightarrow> 'a list" where
  "percolate_down cmp heap pos =
     (if left pos \<ge> length heap then heap
      else let smallest = smallest_of cmp heap pos
           in if smallest = pos then heap
              else percolate_down cmp
                     (heap[pos := heap ! smallest, smallest := heap ! pos]) smallest)"
  by pat_completeness auto
termination
proof (relation "measure (\<lambda>(cmp, heap, pos). length heap - pos)")
  show "wf (measure (\<lambda>(cmp, heap, pos). length heap - pos))" by simp
next
  fix cmp :: "'a \<Rightarrow> 'a \<Rightarrow> bool" and heap :: "'a list" and pos x
  assume a: "\<not> length heap \<le> left pos" "x = smallest_of cmp heap pos" "x \<noteq> pos"
  have "pos < x" "x < length heap"
    using a smallest_of_greater [of cmp heap pos] smallest_of_less [of pos heap cmp] by simp_all
  then show "((cmp, heap[pos := heap ! x, x := heap ! pos], x), cmp, heap, pos)
        \<in> measure (\<lambda>(cmp, heap, pos). length heap - pos)"
    by simp
qed

declare percolate_down.simps [simp del]

definition heapify :: "('a \<Rightarrow> 'a \<Rightarrow> bool) \<Rightarrow> 'a list \<Rightarrow> 'a list" where
  "heapify cmp vec =
     (let n = length vec
      in if n \<le> 1 then vec
         else percolate_down cmp
                (foldl (percolate_down cmp) vec (rev [1..<Suc (parent (n - 1))])) 0)"

text \<open>\<open>replace\<close> and \<open>pop\<close> read \<open>heap[0]\<close>: on an empty heap they are undefined.\<close>

definition replace :: "('a \<Rightarrow> 'a \<Rightarrow> bool) \<Rightarrow> 'a list \<Rightarrow> 'a \<Rightarrow> 'a list option" where
  "replace cmp heap element =
     (if heap = [] then None else Some (percolate_down cmp (heap[0 := element]) 0))"

definition pop :: "('a \<Rightarrow> 'a \<Rightarrow> bool) \<Rightarrow> 'a list \<Rightarrow> 'a list option" where
  "pop cmp heap =
     (if heap = [] then None
      else Some (percolate_down cmp (butlast (heap[0 := last heap])) 0))"

subsection \<open>The top-k pruners (pruner\_topk.hpp, pruner\_topk\_optimized.hpp)\<close>

text \<open>
  The pruners only compare relevances; no arithmetic is done on them. An assignment
  \<open>vec[i] = v\<close> to a vector is \<open>put\<close>.
\<close>

definition put :: "'a list \<Rightarrow> nat \<Rightarrow> 'a \<Rightarrow> 'a list option" where
  "put xs i v = (if i < length xs then Some (xs[i := v]) else None)"

text \<open>The branch \<open>n <= k\<close> of both pruners: \<open>resize(n)\<close>, then \<open>indices[i] = i\<close>.\<close>

definition all_indices :: "nat \<Rightarrow> PrunerSolution option" where
  "all_indices n = for_each [0..<n] (\<lambda>i ind. put ind i i) (replicate n 0)"

text \<open>
  The second pass of \<open>PrunerTopk\<close> over the positions still to visit, with its \<open>continue\<close>
  and its \<open>break\<close>.
\<close>

fun collect_topk :: "real list \<Rightarrow> nat list \<Rightarrow> real list \<Rightarrow> nat list \<Rightarrow> nat list option" where
  "collect_topk rel_list [] heap ind = Some ind"
| "collect_topk rel_list (i # rest) heap ind = do {
     r \<leftarrow> get rel_list i;
     h0 \<leftarrow> get heap 0;
     if r < h0 then collect_topk rel_list rest heap ind
     else if r = h0 then do {
       heap \<leftarrow> pop (<) heap;
       if heap = [] then Some (ind @ [i])
       else collect_topk rel_list rest heap (ind @ [i])
     }
     else collect_topk rel_list rest heap (ind @ [i])
   }"

definition PrunerTopk :: "nat \<Rightarrow> real list \<Rightarrow> nat \<Rightarrow> minmax_type \<Rightarrow> PrunerSolution option" where
  "PrunerTopk k rel_list n minmax_element =
     (if n \<le> k then all_indices n
      else do {
        heap \<leftarrow> for_each [0..<k] (\<lambda>i heap. do {
                  r \<leftarrow> get rel_list i;
                  put heap i r
                }) (replicate k 0);
        let heap = heapify (<) heap;
        heap \<leftarrow> for_each [k..<n] (\<lambda>i heap. do {
                  r \<leftarrow> get rel_list i;
                  h0 \<leftarrow> get heap 0;
                  if r < h0 then Some heap else replace (<) heap r
                }) heap;
        collect_topk rel_list [0..<n] heap []
      })"

record relpos_pair_type =
  relevance :: real
  position :: nat

definition relpos_comparator_relevance :: "relpos_pair_type \<Rightarrow> relpos_pair_type \<Rightarrow> bool" where
  "relpos_comparator_relevance l r \<longleftrightarrow> relevance l < relevance r"

definition relpos_comparator_position :: "relpos_pair_type \<Rightarrow> relpos_pair_type \<Rightarrow> bool" where
  "relpos_comparator_position l r \<longleftrightarrow> position l < position r"

text \<open>
  The two \<open>while\<close> loops count \<open>i\<close> down, so they visit the positions in decreasing order.
  \<open>std::sort\<close> with \<open>relpos_comparator_position\<close> is \<open>sort_key position\<close>: the positions in
  the heap are distinct, so the sorted vector is the same for every sorting algorithm.
\<close>

definition PrunerTopkOptimized ::
  "nat \<Rightarrow> real list \<Rightarrow> nat \<Rightarrow> minmax_type \<Rightarrow> PrunerSolution option" where
  "PrunerTopkOptimized k rel_list n minmax_element =
     (if n \<le> k then all_indices n
      else do {
        heap \<leftarrow> for_each (rev [n - k..<n]) (\<lambda>i heap. do {
                  r \<leftarrow> get rel_list i;
                  Some (heap @ [\<lparr>relevance = r, position = i\<rparr>])
                }) [];
        let heap = heapify relpos_comparator_relevance heap;
        heap \<leftarrow> for_each (rev [0..<n - k]) (\<lambda>i heap. do {
                  r \<leftarrow> get rel_list i;
                  h0 \<leftarrow> get heap 0;
                  if r < relevance h0 then Some heap
                  else replace relpos_comparator_relevance heap \<lparr>relevance = r, position = i\<rparr>
                }) heap;
        let heap = sort_key position heap;
        for_each [0..<length heap] (\<lambda>i ind. do {
          p \<leftarrow> get heap i;
          put ind i (position p)
        }) (replicate (length heap) 0)
      })"

subsection \<open>The composition of a pruner and a filter (composition.hpp)\<close>

text \<open>
  \<open>PrunerFilterCompositionTest::operator()\<close>. The timing fields of the outcome are not
  modelled. \<open>n2\<close> and the loop bounds are 32-bit unsigned values.
\<close>

record TestOutcome =
  out_score :: real
  out_indices :: "nat list"
  num_elements_pruned :: nat
  num_elements_not_pruned :: nat

type_synonym pruner = "real list \<Rightarrow> nat \<Rightarrow> minmax_type \<Rightarrow> PrunerSolution option"
type_synonym filter_fun = "real list \<Rightarrow> nat \<Rightarrow> FilterSolution option"

definition materialize :: "real list \<Rightarrow> PrunerSolution \<Rightarrow> nat \<Rightarrow> real list option" where
  "materialize rel_list pruningSolution n2 = do {
     new_rel_list \<leftarrow> for_each [0..<n2] (\<lambda>i new_rel_list. do {
         p \<leftarrow> get pruningSolution i;
         r \<leftarrow> get rel_list p;
         store new_rel_list i r
       }) (new_array n2);
     those new_rel_list
   }"

definition remap :: "PrunerSolution \<Rightarrow> nat list \<Rightarrow> nat list option" where
  "remap pruningSolution idx =
     for_each [0..<length idx mod 2 ^ 32] (\<lambda>i idx. do {
         j \<leftarrow> get idx i;
         p \<leftarrow> get pruningSolution j;
         Some (idx[i := p])
       }) idx"

definition PrunerFilterCompositionTest ::
  "pruner option \<Rightarrow> filter_fun \<Rightarrow> real list \<Rightarrow> nat \<Rightarrow> minmax_type \<Rightarrow> TestOutcome option" where
  "PrunerFilterCompositionTest pruner filter_k rel_list n minmax_element =
     (case pruner of
        Some prune \<Rightarrow> do {
          pruningSolution \<leftarrow> prune rel_list n minmax_element;
          let n2 = length pruningSolution mod 2 ^ 32;
          new_rel_list \<leftarrow> materialize rel_list pruningSolution n2;
          filteringSolution \<leftarrow> filter_k new_rel_list n2;
          idx \<leftarrow> remap pruningSolution (indices filteringSolution);
          Some \<lparr>out_score = score filteringSolution, out_indices = idx,
                num_elements_pruned = (n + 2 ^ 32 - n2) mod 2 ^ 32,
                num_elements_not_pruned = n2\<rparr>
        }
      | None \<Rightarrow> do {
          filteringSolution \<leftarrow> filter_k rel_list n;
          Some \<lparr>out_score = score filteringSolution, out_indices = indices filteringSolution,
                num_elements_pruned = 0, num_elements_not_pruned = 0\<rparr>
        })"

subsection \<open>The dynamic program the filter computes\<close>

text \<open>
  The table of the filter seen as a matrix: row \<open>r\<close> has \<open>row_len k r\<close> cells (the
  triangular block up to row \<open>k - 1\<close>, the rectangular block after it) and starts at offset
  \<open>row_shift k r\<close> of the flat array.
\<close>

definition row_len :: "nat \<Rightarrow> nat \<Rightarrow> nat" where
  "row_len k r = min (Suc r) k"

fun row_shift :: "nat \<Rightarrow> nat \<Rightarrow> nat" where
  "row_shift k 0 = 0"
| "row_shift k (Suc r) = row_shift k r + row_len k r"

text \<open>
  The value the loops of \<open>filter_impl\<close> assign to the cell of row \<open>r\<close> and column \<open>c\<close>,
  for gains \<open>g\<close> (by row) and discounts \<open>d\<close> (by column): the three assignments of the row
  loops, as a recurrence.
\<close>

fun cell :: "(nat \<Rightarrow> real) \<Rightarrow> (nat \<Rightarrow> real) \<Rightarrow> nat \<Rightarrow> nat \<Rightarrow> real" where
  "cell g d 0 c = float32 (g 0 * d 0)"
| "cell g d (Suc r) c =
     (if c = 0 then max (cell g d r 0) (float32 (g (Suc r) * d 0))
      else if c \<le> r
      then max (cell g d r c) (float32 (cell g d r (c - 1) + float32 (g (Suc r) * d c)))
      else float32 (cell g d r (c - 1) + float32 (g (Suc r) * d c)))"

text \<open>The contents of \<open>gains[i]\<close> and \<open>discounts[c]\<close> after the buffer is filled.\<close>

definition gains :: "score_fun \<Rightarrow> real list \<Rightarrow> nat \<Rightarrow> real" where
  "gains sf rel_list i = gain_factor sf (rel_list ! i)"

definition discounts :: "score_fun \<Rightarrow> nat \<Rightarrow> real" where
  "discounts sf c = discount_at (metric_of sf) (Suc c)"

text \<open>
  The \<open>float\<close> score of an index sequence, as \<open>score_solution\<close> of utils.hpp accumulates
  it: the elements take the positions \<open>1, 2, \<dots>\<close> in turn, each product of gain and
  discount is rounded and added to the score so far, and each sum is rounded.
\<close>

definition seq_score :: "(nat \<Rightarrow> real) \<Rightarrow> (nat \<Rightarrow> real) \<Rightarrow> nat list \<Rightarrow> real" where
  "seq_score g d S =
     foldl (\<lambda>score i. float32 (score + float32 (g (S ! i) * d i))) 0 [0..<length S]"

text \<open>
  The sizes for which no size computation of \<open>filter_impl\<close> overflows and the metric has a
  discount for every position up to \<open>k\<close>.
\<close>

definition in_range :: "score_fun \<Rightarrow> nat \<Rightarrow> nat \<Rightarrow> bool" where
  "in_range sf this_k n \<longleftrightarrow>
     (let k = min this_k n
      in k \<le> max_position sf \<and> (k - 1) * k < 2 ^ 31
         \<and> (k - 1) * k div 2 + k * (n - (k - 1)) < 2 ^ 32 \<and> n + k < 2 ^ 32)"

subsection \<open>Loop invariants used in the proofs\<close>

text \<open>The buffer holds the gains and the first \<open>k\<close> discounts.\<close>

definition buffer_ok :: "(nat \<Rightarrow> real) \<Rightarrow> (nat \<Rightarrow> real) \<Rightarrow> nat \<Rightarrow> nat \<Rightarrow> real array \<Rightarrow> bool" where
  "buffer_ok g d n k B \<longleftrightarrow>
     (\<forall>i<n. load B i = Some (g i)) \<and> (\<forall>c<k. load B (n + c) = Some (d c))"

text \<open>Every cell of the table below the flat offset \<open>t\<close> is written and holds its value.\<close>

definition table_upto ::
  "(nat \<Rightarrow> real) \<Rightarrow> (nat \<Rightarrow> real) \<Rightarrow> nat \<Rightarrow> real array \<Rightarrow> nat \<Rightarrow> bool" where
  "table_upto g d k M t \<longleftrightarrow>
     (\<forall>r c. c < row_len k r \<longrightarrow> row_shift k r + c < t \<longrightarrow>
        load M (row_shift k r + c) = Some (cell g d r c))"

definition cols_inv ::
  "(nat \<Rightarrow> real) \<Rightarrow> (nat \<Rightarrow> real) \<Rightarrow> nat \<Rightarrow> nat \<Rightarrow> nat \<Rightarrow> nat \<Rightarrow> real array \<Rightarrow> bool" where
  "cols_inv g d k L base col M \<longleftrightarrow> table_upto g d k M (base + col) \<and> length M = L"

definition rows_inv ::
  "(nat \<Rightarrow> real) \<Rightarrow> (nat \<Rightarrow> real) \<Rightarrow> nat \<Rightarrow> nat \<Rightarrow> nat \<Rightarrow> nat \<times> nat \<times> real array \<Rightarrow> bool" where
  "rows_inv g d k L row st \<longleftrightarrow>
     (case st of (p, c, M) \<Rightarrow>
        p = row_shift k (row - 1) \<and> c = p \<and> table_upto g d k M (row_shift k row) \<and> length M = L)"

text \<open>The search of the last row: the score is the maximum so far, at its smallest column.\<close>

definition best_inv :: "(nat \<Rightarrow> real) \<Rightarrow> nat \<Rightarrow> real \<times> nat \<Rightarrow> bool" where
  "best_inv row_cells col st \<longleftrightarrow>
     (case st of (sc, bc) \<Rightarrow>
        (bc = 0 \<or> bc < col) \<and> 0 \<le> sc \<and> (\<forall>c<col. row_cells c \<le> sc)
        \<and> (\<forall>c<bc. row_cells c < sc) \<and> (sc = 0 \<and> bc = 0 \<or> bc < col \<and> sc = row_cells bc))"

definition best_shape :: "nat \<Rightarrow> real \<times> nat \<Rightarrow> bool" where
  "best_shape col st \<longleftrightarrow> (case st of (sc, bc) \<Rightarrow> bc = 0 \<or> bc < col)"

text \<open>The index list the filter returns from the final state of the trace back.\<close>

definition trace_list :: "nat \<Rightarrow> nat list \<Rightarrow> nat list" where
  "trace_list cur new = rev (if cur = 0 then new @ [0] else new)"

text \<open>
  The heap order from position \<open>s\<close> on: no element with a parent at \<open>s\<close> or later is smaller
  than its parent.
\<close>

definition heap_from :: "('a \<Rightarrow> real) \<Rightarrow> nat \<Rightarrow> 'a list \<Rightarrow> bool" where
  "heap_from key s h \<longleftrightarrow>
     (\<forall>i<length h. 0 < i \<longrightarrow> s \<le> parent i \<longrightarrow> key (h ! parent i) \<le> key (h ! i))"

text \<open>
  \<open>H\<close> holds \<open>k\<close> largest values of \<open>R\<close>: it is a part of \<open>R\<close> of size \<open>k\<close> and nothing left
  out is larger than anything kept.
\<close>

definition topk_of :: "real multiset \<Rightarrow> real multiset \<Rightarrow> nat \<Rightarrow> bool" where
  "topk_of H R k \<longleftrightarrow> H \<subseteq># R \<and> size H = k \<and> (\<forall>x\<in>#H. \<forall>y\<in>#R - H. y \<le> x)"

text \<open>
  The second pass of \<open>PrunerTopk\<close> before position \<open>i\<close>: the relevances selected so far are
  the part of \<open>H\<close> met so far, what was popped was selected, and a value selected without
  a pop is above the smallest of \<open>H\<close>.
\<close>

definition collect_inv :: "real list \<Rightarrow> real multiset \<Rightarrow> nat \<Rightarrow> real list \<Rightarrow> nat list \<Rightarrow> bool" where
  "collect_inv rel H i h ind \<longleftrightarrow>
     sorted_wrt (<) ind \<and> set ind \<subseteq> {..<i} \<and> h \<noteq> [] \<and> heap_from (\<lambda>x. x) 0 h
     \<and> (\<forall>v. count (mset (map ((!) rel) ind)) v = min (count (mset (take i rel)) v) (count H v))
     \<and> (\<forall>v. count (mset h) v \<le> count H v)
     \<and> (\<forall>v. count H v \<le> count (mset h) v + count (mset (map ((!) rel) ind)) v)
     \<and> (\<forall>v. count H v < count (mset h) v + count (mset (map ((!) rel) ind)) v
            \<longrightarrow> (\<exists>m\<in>#H. m < v))"

text \<open>The heap of \<open>PrunerTopkOptimized\<close> when the positions from \<open>i\<close> on have been visited.\<close>

definition relpos_inv :: "real list \<Rightarrow> nat \<Rightarrow> nat \<Rightarrow> nat \<Rightarrow> relpos_pair_type list \<Rightarrow> bool" where
  "relpos_inv rel n k i h \<longleftrightarrow>
     length h = k
     \<and> (\<forall>p\<in>set h. relevance p = rel ! position p \<and> i \<le> position p \<and> position p < n)
     \<and> distinct (map position h)
     \<and> topk_of (mset (map relevance h)) (mset (drop i rel)) k"

text \<open>The two loops of the composition.\<close>

definition mat_inv :: "real list \<Rightarrow> nat list \<Rightarrow> nat \<Rightarrow> nat \<Rightarrow> real array \<Rightarrow> bool" where
  "mat_inv rel ps n2 i A \<longleftrightarrow>
     length A = n2 \<and> (\<forall>j<i. ps ! j < length rel \<and> A ! j = Some (rel ! (ps ! j)))"

definition remap_inv :: "nat list \<Rightarrow> nat list \<Rightarrow> nat \<Rightarrow> nat list \<Rightarrow> bool" where
  "remap_inv ps idx0 i idx \<longleftrightarrow>
     length idx = length idx0 \<and>
     (\<forall>j<length idx0. if j < i then idx0 ! j < length ps \<and> idx ! j = ps ! (idx0 ! j)
                       else idx ! j = idx0 ! j)"

section \<open>Properties\<close>

subsection \<open>Rounding\<close>

text \<open>Rounding keeps the order, the sign and every value of the format.\<close>

lemma round_even_of_int: "round_even (of_int m) = m"
  by (simp add: round_even_def)

lemma round_even_bounds: "\<lfloor>x\<rfloor> \<le> round_even x" "round_even x \<le> \<lfloor>x\<rfloor> + 1"
  by (simp_all add: round_even_def Let_def)

lemma round_even_mono:
  assumes "x \<le> y"
  shows "round_even x \<le> round_even y"
proof (cases "\<lfloor>x\<rfloor> = \<lfloor>y\<rfloor>")
  case True
  then show ?thesis using assms by (auto simp: round_even_def Let_def)
next
  case False
  then have "\<lfloor>x\<rfloor> < \<lfloor>y\<rfloor>" using assms floor_mono [of x y] by simp
  then have "round_even x \<le> \<lfloor>y\<rfloor>" using round_even_bounds(2) [of x] by simp
  then show ?thesis using round_even_bounds(1) [of y] by simp
qed

lemma round_even_uminus: "round_even (- x) = - round_even x"
proof (cases "x = of_int \<lfloor>x\<rfloor>")
  case True
  then obtain m where "x = of_int m" by blast
  then have "round_even x = m" "round_even (- x) = - m"
    using round_even_of_int [of m] round_even_of_int [of "- m"] by simp_all
  then show ?thesis by simp
next
  case False
  then have fl: "\<lfloor>- x\<rfloor> = - \<lfloor>x\<rfloor> - 1"
    by (metis ceiling_altdef ceiling_def add_diff_cancel_right' minus_diff_eq uminus_add_conv_diff minus_minus)
  define f where "f = \<lfloor>x\<rfloor>"
  define r where "r = x - of_int f"
  have r: "0 < r" "r < 1" using False by (simp_all add: r_def f_def) linarith+
  have a: "- x - of_int (- f - 1) = 1 - r" by (simp add: r_def)
  have ev: "even (- f - 1) \<longleftrightarrow> \<not> even f" by simp
  show ?thesis
    unfolding round_even_def Let_def fl f_def [symmetric] a r_def [symmetric]
    using r ev by auto
qed

lemma round_even_nonneg: "0 \<le> x \<Longrightarrow> 0 \<le> round_even x"
  using round_even_mono [of 0 x] round_even_of_int [of 0] by simp

lemma ulp_pos: "0 < ulp p emin x"
  by (simp add: ulp_def)

lemma binade_uminus: "binade emin (- x) = binade emin x"
  by (simp add: binade_def)

lemma ulp_uminus: "ulp p emin (- x) = ulp p emin x"
  by (simp add: ulp_def binade_uminus)

lemma round_to_0: "round_to p emin 0 = 0"
  by (simp add: round_to_def)

lemma round_to_uminus: "round_to p emin (- x) = - round_to p emin x"
  by (simp add: round_to_def ulp_uminus round_even_uminus)

lemma round_to_nonneg: "0 \<le> x \<Longrightarrow> 0 \<le> round_to p emin x"
  using ulp_pos [of p emin x] round_even_nonneg [of "x / ulp p emin x"]
  by (simp add: round_to_def)

lemma binade_mono: "0 < x \<Longrightarrow> x \<le> y \<Longrightarrow> binade emin x \<le> binade emin y"
  by (simp add: binade_def floor_mono max.coboundedI1)

lemma binade_upper: "0 < x \<Longrightarrow> x < 2 powr real_of_int (binade emin x + 1)"
proof -
  assume x: "0 < x"
  have "x < 2 powr real_of_int (\<lfloor>log 2 x\<rfloor> + 1)"
    using floor_log_eq_powr_iff [of x 2 "\<lfloor>log 2 x\<rfloor>"] x by simp
  also have "\<dots> \<le> 2 powr real_of_int (binade emin x + 1)"
    using x by (simp add: binade_def)
  finally show ?thesis .
qed

lemma binade_lower:
  "0 < x \<Longrightarrow> emin < binade emin x \<Longrightarrow> 2 powr real_of_int (binade emin x) \<le> x"
proof -
  assume x: "0 < x" and e: "emin < binade emin x"
  then have "binade emin x = \<lfloor>log 2 x\<rfloor>" by (simp add: binade_def max_def split: if_splits)
  then show ?thesis using floor_log_eq_powr_iff [of x 2 "\<lfloor>log 2 x\<rfloor>"] x by simp
qed

lemma round_to_upper:
  assumes "0 < x"
  shows "round_to p emin x \<le> 2 powr real_of_int (binade emin x + 1)"
proof -
  let ?u = "ulp p emin x"
  have "x / ?u \<le> 2 powr real_of_int (binade emin x + 1) / ?u"
    using binade_upper [OF assms, of emin] ulp_pos [of p emin x] by (simp add: divide_right_mono)
  also have "\<dots> = 2 powr real_of_int (int p)"
    by (simp add: ulp_def powr_diff [symmetric])
  also have "\<dots> = real_of_int (2 ^ p)" by (simp add: powr_realpow)
  finally have "round_even (x / ?u) \<le> round_even (real_of_int (2 ^ p))" by (rule round_even_mono)
  then have "real_of_int (round_even (x / ?u)) \<le> 2 ^ p"
    unfolding round_even_of_int by (metis of_int_le_iff of_int_numeral of_int_power)
  then have "real_of_int (round_even (x / ?u)) * ?u \<le> 2 ^ p * ?u"
    using ulp_pos [of p emin x] by simp
  also have "2 ^ p * ?u = 2 powr real_of_int (binade emin x + 1)"
    by (simp add: ulp_def powr_realpow [symmetric] powr_add [symmetric])
  finally show ?thesis using assms by (simp add: round_to_def)
qed

lemma round_to_lower:
  assumes "0 < x" "emin < binade emin x" "0 < p"
  shows "2 powr real_of_int (binade emin x) \<le> round_to p emin x"
proof -
  let ?u = "ulp p emin x"
  have "2 powr real_of_int (binade emin x) / ?u \<le> x / ?u"
    using binade_lower [OF assms(1,2)] ulp_pos [of p emin x] by (simp add: divide_right_mono)
  moreover have "2 powr real_of_int (binade emin x) / ?u = 2 powr real_of_int (int p - 1)"
    by (simp add: ulp_def powr_diff [symmetric])
  moreover have "2 powr real_of_int (int p - 1) = real_of_int (2 ^ (p - 1))"
    using assms(3) by (simp add: powr_realpow [symmetric] of_nat_diff)
  ultimately have "round_even (real_of_int (2 ^ (p - 1))) \<le> round_even (x / ?u)"
    by (intro round_even_mono) simp
  then have "2 ^ (p - 1) \<le> real_of_int (round_even (x / ?u))"
    unfolding round_even_of_int by (metis of_int_le_iff of_int_numeral of_int_power)
  then have "2 ^ (p - 1) * ?u \<le> real_of_int (round_even (x / ?u)) * ?u"
    using ulp_pos [of p emin x] by simp
  moreover have "2 ^ (p - 1) * ?u = 2 powr real_of_int (binade emin x)"
    using assms(3) by (simp add: ulp_def powr_realpow [symmetric] powr_add [symmetric] of_nat_diff)
  ultimately show ?thesis using assms(1) by (simp add: round_to_def)
qed

lemma round_to_mono_pos:
  assumes "0 < x" "x \<le> y" "0 < p"
  shows "round_to p emin x \<le> round_to p emin y"
proof (cases "binade emin x = binade emin y")
  case True
  then have u: "ulp p emin x = ulp p emin y" by (simp add: ulp_def)
  have "x / ulp p emin y \<le> y / ulp p emin y"
    using assms(2) ulp_pos [of p emin y] by (simp add: divide_right_mono)
  then have "round_even (x / ulp p emin y) \<le> round_even (y / ulp p emin y)"
    by (rule round_even_mono)
  then show ?thesis using assms(1,2) ulp_pos [of p emin y] by (simp add: round_to_def u)
next
  case False
  then have lt: "binade emin x < binade emin y"
    using binade_mono [OF assms(1,2), of emin] by simp
  have y: "0 < y" using assms by simp
  have "emin \<le> binade emin x" by (simp add: binade_def)
  then have "emin < binade emin y" using lt by simp
  from round_to_lower [OF y this assms(3)]
  have "2 powr real_of_int (binade emin y) \<le> round_to p emin y" .
  moreover have "round_to p emin x \<le> 2 powr real_of_int (binade emin x + 1)"
    by (rule round_to_upper [OF assms(1)])
  moreover have "2 powr real_of_int (binade emin x + 1) \<le> 2 powr real_of_int (binade emin y)"
    using lt by simp
  ultimately show ?thesis by linarith
qed

lemma round_to_mono:
  assumes "x \<le> y" "0 < p"
  shows "round_to p emin x \<le> round_to p emin y"
proof -
  consider "0 < x" | "x = 0" | "x < 0" "0 \<le> y" | "x < 0" "y < 0" by linarith
  then show ?thesis
  proof cases
    case 1
    then show ?thesis using assms by (rule round_to_mono_pos)
  next
    case 2
    then show ?thesis using assms(1) round_to_nonneg [of y p emin] by (simp add: round_to_0)
  next
    case 3
    have "0 \<le> round_to p emin (- x)" using 3(1) by (intro round_to_nonneg) simp
    then have "round_to p emin x \<le> 0" by (simp add: round_to_uminus)
    then show ?thesis using round_to_nonneg [OF 3(2), of p emin] by linarith
  next
    case 4
    have "round_to p emin (- y) \<le> round_to p emin (- x)"
      using 4 assms by (intro round_to_mono_pos) simp_all
    then show ?thesis by (simp add: round_to_uminus)
  qed
qed

lemma float32_mono: "x \<le> y \<Longrightarrow> float32 x \<le> float32 y"
  by (simp add: float32_def round_to_mono)

lemma float64_mono: "x \<le> y \<Longrightarrow> float64 x \<le> float64 y"
  by (simp add: float64_def round_to_mono)

lemma float32_0: "float32 0 = 0"
  by (simp add: float32_def round_to_0)

lemma float64_0: "float64 0 = 0"
  by (simp add: float64_def round_to_0)

lemma float32_nonneg: "0 \<le> x \<Longrightarrow> 0 \<le> float32 x"
  by (simp add: float32_def round_to_nonneg)

lemma float64_nonneg: "0 \<le> x \<Longrightarrow> 0 \<le> float64 x"
  by (simp add: float64_def round_to_nonneg)

lemma binade_eq:
  assumes "2 powr real_of_int e \<le> \<bar>x\<bar>" "\<bar>x\<bar> < 2 powr real_of_int (e + 1)"
  shows "binade emin x = max e emin"
proof -
  have "0 < 2 powr real_of_int e" by simp
  then have "0 < \<bar>x\<bar>" using assms(1) by linarith
  then have "\<lfloor>log 2 \<bar>x\<bar>\<rfloor> = e"
    using floor_log_eq_powr_iff [of "\<bar>x\<bar>" 2 e] assms by simp
  then show ?thesis by (simp add: binade_def)
qed

lemma round_to_evalI:
  assumes "2 powr real_of_int e \<le> \<bar>x\<bar>" "\<bar>x\<bar> < 2 powr real_of_int (e + 1)"
    and "y = real_of_int (round_even (x / 2 powr real_of_int (max e emin - int p + 1)))
               * 2 powr real_of_int (max e emin - int p + 1)"
  shows "round_to p emin x = y"
proof -
  have "0 < 2 powr real_of_int e" by simp
  then have "x \<noteq> 0" using assms(1) by auto
  then show ?thesis
    using assms(3) by (simp add: round_to_def ulp_def binade_eq [OF assms(1,2)])
qed

lemma float32_evalI:
  assumes "2 powr real_of_int e \<le> \<bar>x\<bar>" "\<bar>x\<bar> < 2 powr real_of_int (e + 1)"
    and "y = real_of_int (round_even (x / 2 powr real_of_int (max e (- 126) - 23)))
               * 2 powr real_of_int (max e (- 126) - 23)"
  shows "float32 x = y"
  unfolding float32_def using assms by (intro round_to_evalI [where e = e]) simp_all

lemma float64_evalI:
  assumes "2 powr real_of_int e \<le> \<bar>x\<bar>" "\<bar>x\<bar> < 2 powr real_of_int (e + 1)"
    and "y = real_of_int (round_even (x / 2 powr real_of_int (max e (- 1022) - 52)))
               * 2 powr real_of_int (max e (- 1022) - 52)"
  shows "float64 x = y"
  unfolding float64_def using assms by (intro round_to_evalI [where e = e]) simp_all

lemmas powr_eval = powr_minus powr_numeral round_even_def Let_def

lemma round_even_int_times:
  assumes "0 \<le> j"
  shows "round_even (real_of_int m * 2 powr real_of_int j) = m * 2 ^ nat j"
proof -
  have "2 powr real_of_int j = real_of_int (2 ^ nat j)"
    using assms by (simp add: powr_realpow [symmetric])
  then have e: "real_of_int m * 2 powr real_of_int j = real_of_int (m * 2 ^ nat j)" by simp
  show ?thesis unfolding e by (rule round_even_of_int)
qed

lemma real_of_int_less_pow: "\<bar>m\<bar> < 2 ^ p \<Longrightarrow> real_of_int \<bar>m\<bar> < 2 ^ p"
proof -
  assume "\<bar>m\<bar> < 2 ^ p"
  then have "real_of_int \<bar>m\<bar> < real_of_int (2 ^ p)" by (simp only: of_int_less_iff)
  then show ?thesis by simp
qed

lemma round_to_id_less:
  assumes m: "\<bar>m\<bar> < 2 ^ p" and j: "emin - int p + 1 \<le> j"
  shows "round_to p emin (real_of_int m * 2 powr real_of_int j) = real_of_int m * 2 powr real_of_int j"
proof (cases "m = 0")
  case True
  then show ?thesis by (simp add: round_to_0)
next
  case False
  define x where "x = real_of_int m * 2 powr real_of_int j"
  have x0: "x \<noteq> 0" using False by (simp add: x_def)
  have ax: "\<bar>x\<bar> = real_of_int \<bar>m\<bar> * 2 powr real_of_int j" by (simp add: x_def abs_mult)
  have "\<bar>x\<bar> < 2 ^ p * 2 powr real_of_int j"
    unfolding ax using real_of_int_less_pow [OF m] by simp
  also have "\<dots> = 2 powr real_of_int (int p + j)"
    by (simp add: powr_add powr_realpow)
  finally have up: "\<bar>x\<bar> < 2 powr real_of_int (int p + j)" .
  have "0 < \<bar>x\<bar>" using x0 by simp
  then have "log 2 \<bar>x\<bar> < real_of_int (int p + j)"
    using up by (simp add: log_less_iff)
  then have "\<lfloor>log 2 \<bar>x\<bar>\<rfloor> < int p + j" by linarith
  then have e: "binade emin x - int p + 1 \<le> j" using j by (simp add: binade_def)
  define b where "b = binade emin x - int p + 1"
  define i where "i = j - b"
  have i: "0 \<le> i" using e by (simp add: i_def b_def)
  have u: "ulp p emin x = 2 powr real_of_int b" by (simp only: ulp_def b_def)
  have ji: "real_of_int j = real_of_int i + real_of_int b" by (simp add: i_def)
  have xe: "x = real_of_int m * 2 powr real_of_int i * 2 powr real_of_int b"
    unfolding x_def ji by (simp add: powr_add)
  have "x / ulp p emin x = x / 2 powr real_of_int b" by (simp only: u)
  also have "\<dots> = real_of_int m * 2 powr real_of_int i" by (subst xe) simp
  finally have "x / ulp p emin x = real_of_int m * 2 powr real_of_int i" .
  then have "round_even (x / ulp p emin x) = m * 2 ^ nat i"
    using round_even_int_times [OF i, of m] by simp
  then have "round_to p emin x = real_of_int (m * 2 ^ nat i) * 2 powr real_of_int b"
    using x0 by (simp add: round_to_def u)
  also have "real_of_int (m * 2 ^ nat i) = real_of_int m * 2 powr real_of_int i"
    using i by (simp add: powr_realpow [symmetric])
  also have "real_of_int m * 2 powr real_of_int i * 2 powr real_of_int b = x"
    by (rule xe [symmetric])
  finally show ?thesis unfolding x_def .
qed

lemma round_to_id_pow:
  assumes j: "emin - int p + 1 \<le> j" and p: "0 < p"
  shows "round_to p emin (2 ^ p * 2 powr real_of_int j) = 2 ^ p * 2 powr real_of_int j"
proof -
  have "(2::real) ^ p = 2 ^ (p - 1) * 2" using p by (cases p) simp_all
  moreover have "2 powr real_of_int (j + 1) = 2 * 2 powr real_of_int j"
    by (simp add: powr_add)
  ultimately have x: "2 ^ p * 2 powr real_of_int j
         = real_of_int (2 ^ (p - 1)) * 2 powr real_of_int (j + 1)" by simp
  have "\<bar>(2::int) ^ (p - 1)\<bar> < 2 ^ p" using p by simp
  then show ?thesis
    unfolding x using j by (intro round_to_id_less) simp_all
qed

lemma round_to_id:
  assumes m: "\<bar>m\<bar> \<le> 2 ^ p" and j: "emin - int p + 1 \<le> j" and p: "0 < p"
  shows "round_to p emin (real_of_int m * 2 powr real_of_int j) = real_of_int m * 2 powr real_of_int j"
proof -
  consider "\<bar>m\<bar> < 2 ^ p" | "m = 2 ^ p" | "m = - (2 ^ p)" using m by linarith
  then show ?thesis
  proof cases
    case 1
    then show ?thesis using j by (rule round_to_id_less)
  next
    case 2
    then show ?thesis using round_to_id_pow [OF j p] by simp
  next
    case 3
    have "round_to p emin (- (2 ^ p * 2 powr real_of_int j)) = - (2 ^ p * 2 powr real_of_int j)"
      unfolding round_to_uminus using round_to_id_pow [OF j p] by simp
    then show ?thesis using 3 by simp
  qed
qed

lemma round_even_le_pow:
  assumes "\<bar>y\<bar> \<le> 2 ^ p"
  shows "\<bar>round_even y\<bar> \<le> 2 ^ p"
proof -
  have "y \<le> real_of_int (2 ^ p)" using assms by simp
  then have a: "round_even y \<le> round_even (real_of_int (2 ^ p))" by (rule round_even_mono)
  have "real_of_int (- (2 ^ p)) \<le> y" using assms by simp
  then have b: "round_even (real_of_int (- (2 ^ p))) \<le> round_even y" by (rule round_even_mono)
  show ?thesis using a b unfolding round_even_of_int by simp
qed

lemma round_to_idem:
  assumes "0 < p"
  shows "round_to p emin (round_to p emin x) = round_to p emin x"
proof (cases "x = 0")
  case True
  then show ?thesis by (simp add: round_to_0)
next
  case False
  define b where "b = binade emin x - int p + 1"
  have u: "ulp p emin x = 2 powr real_of_int b" by (simp only: ulp_def b_def)
  have b1: "real_of_int (binade emin x + 1) = real_of_int b + real p" by (simp add: b_def)
  have "\<bar>x\<bar> < 2 powr real_of_int (binade emin x + 1)"
    using binade_upper [of "\<bar>x\<bar>" emin] False by (simp add: binade_def)
  also have "\<dots> = 2 ^ p * 2 powr real_of_int b"
    unfolding b1 by (simp add: powr_add powr_realpow)
  finally have "\<bar>x\<bar> / 2 powr real_of_int b < 2 ^ p"
    by (simp add: pos_divide_less_eq)
  then have "\<bar>x / 2 powr real_of_int b\<bar> \<le> 2 ^ p" by simp
  then have m: "\<bar>round_even (x / 2 powr real_of_int b)\<bar> \<le> 2 ^ p" by (rule round_even_le_pow)
  have j: "emin - int p + 1 \<le> b" by (simp add: b_def binade_def)
  have "round_to p emin x = real_of_int (round_even (x / 2 powr real_of_int b))
          * 2 powr real_of_int b"
    using False by (simp add: round_to_def u)
  then show ?thesis using round_to_id [OF m j assms] by simp
qed

lemma float32_idem: "float32 (float32 x) = float32 x"
  by (simp add: float32_def round_to_idem)

lemma float32_of_int:
  "\<bar>m\<bar> \<le> 2 ^ 24 \<Longrightarrow> - 149 \<le> j \<Longrightarrow>
     float32 (real_of_int m * 2 powr real_of_int j) = real_of_int m * 2 powr real_of_int j"
  unfolding float32_def by (intro round_to_id) simp_all

lemma float64_of_int:
  "\<bar>m\<bar> \<le> 2 ^ 53 \<Longrightarrow> - 1074 \<le> j \<Longrightarrow>
     float64 (real_of_int m * 2 powr real_of_int j) = real_of_int m * 2 powr real_of_int j"
  unfolding float64_def by (intro round_to_id) simp_all

lemma float32_1: "float32 1 = 1"
  using float32_of_int [of 1 0] by simp

lemma float64_1: "float64 1 = 1"
  using float64_of_int [of 1 0] by simp

subsection \<open>Loops and arrays\<close>

lemma for_each_append:
  "for_each (xs @ ys) body s = for_each xs body s \<bind> for_each ys body"
  by (induction xs arbitrary: s) (auto split: bind_splits)

lemma for_each_single: "for_each [x] body = body x"
proof (rule ext)
  fix s
  show "for_each [x] body s = body x s"
    by (cases "body x s") simp_all
qed

lemma for_each_snoc:
  "for_each (xs @ [x]) body s = for_each xs body s \<bind> body x"
  by (simp only: for_each_append for_each_single)

lemma for_each_upt_Suc:
  "a \<le> b \<Longrightarrow> for_each [a..<Suc b] body s = for_each [a..<b] body s \<bind> body b"
  by (simp add: for_each_snoc)

text \<open>The loop rule: an invariant kept by every iteration holds when the loop ends, and the loop ends.\<close>

lemma for_each_rule:
  assumes "a \<le> b" and "I a s"
    and "\<And>i t. a \<le> i \<Longrightarrow> i < b \<Longrightarrow> I i t \<Longrightarrow> \<exists>t'. body i t = Some t' \<and> I (Suc i) t'"
  shows "\<exists>t. for_each [a..<b] body s = Some t \<and> I b t"
  using assms(1,3)
proof (induction b)
  case 0
  then show ?case using assms(2) by simp
next
  case (Suc b)
  show ?case
  proof (cases "a = Suc b")
    case True
    then show ?thesis using assms(2) by simp
  next
    case False
    then have ab: "a \<le> b" using Suc.prems(1) by simp
    have "\<exists>t. for_each [a..<b] body s = Some t \<and> I b t"
      using Suc.IH [OF ab] Suc.prems(2) by (meson less_Suc_eq)
    then obtain t where t: "for_each [a..<b] body s = Some t" "I b t" by blast
    obtain t' where "body b t = Some t'" "I (Suc b) t'"
      using Suc.prems(2) [OF ab _ t(2)] by auto
    then show ?thesis using t ab by (simp add: for_each_snoc)
  qed
qed

text \<open>What a loop that returns has kept: the same rule, read from the result.\<close>

lemma for_each_result:
  assumes "for_each [a..<b] body s = Some t" and "a \<le> b" and "I a s"
    and "\<And>i u u'. a \<le> i \<Longrightarrow> i < b \<Longrightarrow> I i u \<Longrightarrow> body i u = Some u' \<Longrightarrow> I (Suc i) u'"
  shows "I b t"
  using assms(1,2,4)
proof (induction b arbitrary: t)
  case 0
  then show ?case using assms(3) by simp
next
  case (Suc b)
  show ?case
  proof (cases "a = Suc b")
    case True
    then show ?thesis using assms(3) Suc.prems(1) by simp
  next
    case False
    then have ab: "a \<le> b" using Suc.prems(2) by simp
    from Suc.prems(1) ab obtain u where u: "for_each [a..<b] body s = Some u" "body b u = Some t"
      by (auto simp: for_each_snoc split: bind_splits)
    have "I b u"
      using Suc.IH [OF u(1) ab] Suc.prems(3) by (meson less_Suc_eq)
    then show ?thesis using Suc.prems(3) [OF ab _ _ u(2)] by simp
  qed
qed

lemma load_Some_iff: "load a i = Some v \<longleftrightarrow> i < length a \<and> a ! i = Some v"
  by (simp add: load_def)

lemma store_Some_iff: "store a i v = Some a' \<longleftrightarrow> i < length a \<and> a' = a[i := Some v]"
  by (auto simp: store_def)

lemma load_store:
  "store a i v = Some a' \<Longrightarrow> load a' j = (if j = i then Some v else load a j)"
  by (auto simp: store_def load_def split: if_splits)

lemma length_store: "store a i v = Some a' \<Longrightarrow> length a' = length a"
  by (auto simp: store_def split: if_splits)

lemma store_total: "i < length a \<Longrightarrow> \<exists>a'. store a i v = Some a'"
  by (simp add: store_def)

subsection \<open>The composition\<close>

lemma those_map_Some: "those (map Some xs) = Some xs"
  by (induction xs) simp_all


lemma materialize_iff:
  assumes "n2 = length ps"
  shows "materialize rel ps n2 = Some xs \<longleftrightarrow>
         (\<forall>p\<in>set ps. p < length rel) \<and> xs = map (\<lambda>p. rel ! p) ps"
proof
  let ?body = "\<lambda>i A. get ps i \<bind> (\<lambda>p. get rel p \<bind> (\<lambda>r. store A i r))"
  assume "materialize rel ps n2 = Some xs"
  then obtain A where A: "for_each [0..<n2] ?body (new_array n2) = Some A" "those A = Some xs"
    by (auto simp: materialize_def split: bind_splits)
  have "mat_inv rel ps n2 n2 A"
  proof (rule for_each_result [OF A(1), where I = "mat_inv rel ps n2"])
    show "mat_inv rel ps n2 0 (new_array n2)" by (simp add: mat_inv_def new_array_def)
  next
    fix i u u' assume "i < n2" "mat_inv rel ps n2 i u" "?body i u = Some u'"
    then show "mat_inv rel ps n2 (Suc i) u'"
      using assms
      by (auto simp: mat_inv_def get_def store_def less_Suc_eq nth_list_update
               split: bind_splits if_splits)
  qed simp
  then have len: "length A = length ps"
    and each: "\<And>j. j < length ps \<Longrightarrow> ps ! j < length rel \<and> A ! j = Some (rel ! (ps ! j))"
    using assms by (auto simp: mat_inv_def)
  have "A = map Some (map (\<lambda>p. rel ! p) ps)"
    by (rule nth_equalityI) (use len each in auto)
  moreover have "\<forall>p\<in>set ps. p < length rel"
    using each by (auto simp: in_set_conv_nth)
  ultimately show "(\<forall>p\<in>set ps. p < length rel) \<and> xs = map (\<lambda>p. rel ! p) ps"
    using A(2) by (simp only: those_map_Some) simp
next
  let ?body = "\<lambda>i A. get ps i \<bind> (\<lambda>p. get rel p \<bind> (\<lambda>r. store A i r))"
  assume r: "(\<forall>p\<in>set ps. p < length rel) \<and> xs = map (\<lambda>p. rel ! p) ps"
  have "\<exists>A. for_each [0..<n2] ?body (new_array n2) = Some A \<and> mat_inv rel ps n2 n2 A"
  proof (rule for_each_rule [where I = "mat_inv rel ps n2"])
    show "mat_inv rel ps n2 0 (new_array n2)" by (simp add: mat_inv_def new_array_def)
  next
    fix i t assume "i < n2" "mat_inv rel ps n2 i t"
    then show "\<exists>t'. ?body i t = Some t' \<and> mat_inv rel ps n2 (Suc i) t'"
      using assms r
      by (auto simp: mat_inv_def get_def store_def less_Suc_eq nth_list_update)
  qed simp
  then obtain A where A: "for_each [0..<n2] ?body (new_array n2) = Some A"
    "mat_inv rel ps n2 n2 A" by blast
  have "A = map Some (map (\<lambda>p. rel ! p) ps)"
    by (rule nth_equalityI) (use A(2) assms in \<open>auto simp: mat_inv_def\<close>)
  then have "those A = Some xs"
    using r by (simp only: those_map_Some)
  then show "materialize rel ps n2 = Some xs"
    using A(1) by (simp add: materialize_def)
qed

lemma remap_iff:
  assumes "length idx < 2 ^ 32"
  shows "remap ps idx = Some out \<longleftrightarrow>
         (\<forall>j\<in>set idx. j < length ps) \<and> out = map (\<lambda>j. ps ! j) idx"
proof
  let ?body = "\<lambda>i idx. get idx i \<bind> (\<lambda>j. get ps j \<bind> (\<lambda>p. Some (idx[i := p])))"
  have m: "length idx mod 2 ^ 32 = length idx" using assms by simp
  assume "remap ps idx = Some out"
  then have fe: "for_each [0..<length idx] ?body idx = Some out"
    unfolding remap_def m .
  have "remap_inv ps idx (length idx) out"
  proof (rule for_each_result [OF fe, where I = "remap_inv ps idx"])
    show "remap_inv ps idx 0 idx" by (simp add: remap_inv_def)
  next
    fix i u u' assume "i < length idx" "remap_inv ps idx i u" "?body i u = Some u'"
    then show "remap_inv ps idx (Suc i) u'"
      by (auto simp: remap_inv_def get_def less_Suc_eq nth_list_update
               split: bind_splits if_splits)
  qed simp
  then have len: "length out = length idx"
    and each: "\<And>j. j < length idx \<Longrightarrow> idx ! j < length ps \<and> out ! j = ps ! (idx ! j)"
    by (auto simp: remap_inv_def)
  have "out = map (\<lambda>j. ps ! j) idx"
    by (rule nth_equalityI) (use len each in auto)
  moreover have "\<forall>j\<in>set idx. j < length ps"
    using each by (auto simp: in_set_conv_nth)
  ultimately show "(\<forall>j\<in>set idx. j < length ps) \<and> out = map (\<lambda>j. ps ! j) idx" by simp
next
  let ?body = "\<lambda>i idx. get idx i \<bind> (\<lambda>j. get ps j \<bind> (\<lambda>p. Some (idx[i := p])))"
  have m: "length idx mod 2 ^ 32 = length idx" using assms by simp
  assume r: "(\<forall>j\<in>set idx. j < length ps) \<and> out = map (\<lambda>j. ps ! j) idx"
  have "\<exists>t. for_each [0..<length idx] ?body idx = Some t \<and> remap_inv ps idx (length idx) t"
  proof (rule for_each_rule [where I = "remap_inv ps idx"])
    show "remap_inv ps idx 0 idx" by (simp add: remap_inv_def)
  next
    fix i t assume "i < length idx" "remap_inv ps idx i t"
    then show "\<exists>t'. ?body i t = Some t' \<and> remap_inv ps idx (Suc i) t'"
      using r by (auto simp: remap_inv_def get_def less_Suc_eq nth_list_update)
  qed simp
  then obtain t where t: "for_each [0..<length idx] ?body idx = Some t"
    "remap_inv ps idx (length idx) t" by blast
  have "t = map (\<lambda>j. ps ! j) idx"
    by (rule nth_equalityI) (use t(2) in \<open>auto simp: remap_inv_def\<close>)
  then show "remap ps idx = Some out"
    using t(1) r unfolding remap_def m by simp
qed

lemma sorted_wrt_remap:
  assumes "sorted_wrt (<) ps" "sorted_wrt (<) idx" "\<forall>j\<in>set idx. j < length ps"
  shows "sorted_wrt (<) (map (\<lambda>j. ps ! j) (idx :: nat list))"
proof -
  have "\<And>a b. a \<in> set idx \<Longrightarrow> b \<in> set idx \<Longrightarrow> a < b \<Longrightarrow> ps ! a < ps ! b"
    using assms(1,3) by (simp add: sorted_wrt_nth_less)
  then show ?thesis
    using assms(2) by (simp add: sorted_wrt_map) (erule sorted_wrt_mono_rel [rotated], auto)
qed


text \<open>
  Claim C8. When the composition runs a pruner and then the filter on the materialised
  sub-list \<open>rel'[j] = rel[P.indices[j]]\<close>, it returns an outcome whose indices are
  \<open>P.indices[F.indices[i]]\<close> for every \<open>i\<close>, whose score is the filter's score on that
  sub-list, and whose indices are strictly increasing whenever the pruner's and the
  filter's are.
\<close>

theorem composition_remap:
  assumes "prune rel_list n mm = Some ps" and "length ps < 2 ^ 32"
    and "\<forall>p\<in>set ps. p < length rel_list"
    and "filter_k (map (\<lambda>p. rel_list ! p) ps) (length ps) = Some fs"
    and "length (indices fs) < 2 ^ 32"
    and "\<forall>j\<in>set (indices fs). j < length ps"
  shows "\<exists>out. PrunerFilterCompositionTest (Some prune) filter_k rel_list n mm = Some out
           \<and> length (out_indices out) = length (indices fs)
           \<and> (\<forall>i<length (indices fs). out_indices out ! i = ps ! (indices fs ! i))
           \<and> out_score out = score fs
           \<and> (sorted_wrt (<) ps \<and> sorted_wrt (<) (indices fs)
                \<longrightarrow> sorted_wrt (<) (out_indices out))"
proof -
  have n2: "length ps mod 4294967296 = length ps" using assms(2) by simp
  have mat: "materialize rel_list ps (length ps) = Some (map (\<lambda>p. rel_list ! p) ps)"
    using assms(3) by (simp add: materialize_iff)
  have rm: "remap ps (indices fs) = Some (map (\<lambda>j. ps ! j) (indices fs))"
    using assms(5,6) by (simp add: remap_iff)
  have "PrunerFilterCompositionTest (Some prune) filter_k rel_list n mm =
        Some \<lparr>out_score = score fs, out_indices = map (\<lambda>j. ps ! j) (indices fs),
              num_elements_pruned = (n + 2 ^ 32 - length ps) mod 2 ^ 32,
              num_elements_not_pruned = length ps\<rparr>"
    using assms(1,4) mat rm by (simp add: PrunerFilterCompositionTest_def n2 Let_def)
  moreover have "sorted_wrt (<) ps \<and> sorted_wrt (<) (indices fs)
                 \<longrightarrow> sorted_wrt (<) (map (\<lambda>j. ps ! j) (indices fs))"
    using assms(6) by (simp add: sorted_wrt_remap)
  ultimately show ?thesis by simp
qed

lemma bind_weak_cong: "m = m' \<Longrightarrow> Option.bind m f = Option.bind m' f"
  by simp

lemma replicate_numeral: "replicate (numeral v) x = x # replicate (pred_numeral v) x"
  by (simp add: numeral_eq_Suc)

lemma list_update_Cons_numeral: "(x # xs)[numeral v := y] = x # xs[pred_numeral v := y]"
  by (simp add: numeral_eq_Suc)

lemma trace_back_numeral:
  "trace_back M k (numeral v) (c, bc, idx) =
     (if c < numeral v then None
      else do {
        let p = c - (if numeral v < k then numeral v else k);
        a \<leftarrow> load M (c + bc);
        b \<leftarrow> load M (p + bc);
        if a > b
        then (if bc = 0 then Some (c, 2 ^ 32 - 1, idx @ [numeral v])
              else trace_back M k (pred_numeral v) (p, bc - 1, idx @ [numeral v]))
        else trace_back M k (pred_numeral v) (p, bc, idx)
      })"
  by (simp only: numeral_eq_Suc trace_back.simps)

lemmas array_eval = new_array_def load_def store_def get_def replicate_numeral
  list_update_Cons_numeral upt_rec

lemmas filter_eval = filter_impl_def M_cells_def buffer_cells_def fill_buffer_def
  discount_factor_def compute_discounts_def discount_at_def gain_factor_def
  triangular_row_def rectangular_row_def first_cell_def inner_cell_def best_in_row_def
  trace_back_numeral FilterSpirin_def array_eval

text \<open>The roundings that occur in the examples below, each from the definition.\<close>

lemma rounded_1: "float32 (1 / 4) = 1 / 4"
  by (rule float32_evalI [where e = "- 2"]) (simp_all add: powr_eval)

lemma rounded_2: "float32 (6004799503160661 / 18014398509481984) = 11184811 / 33554432"
  by (rule float32_evalI [where e = "- 2"]) (simp_all add: powr_eval)

lemma rounded_3: "float32 (11184811 / 33554432) = 11184811 / 33554432"
  by (rule float32_evalI [where e = "- 2"]) (simp_all add: powr_eval)

lemma rounded_4: "float32 (1 / 2) = 1 / 2"
  by (rule float32_evalI [where e = "- 1"]) (simp_all add: powr_eval)

lemma rounded_5: "float32 (11184811 / 16777216) = 11184811 / 16777216"
  by (rule float32_evalI [where e = "- 1"]) (simp_all add: powr_eval)

lemma rounded_6: "float32 (33554433 / 33554432) = 1"
  by (rule float32_evalI [where e = 0]) (simp_all add: powr_eval)

lemma rounded_7: "float32 (11184811 / 8388608) = 11184811 / 8388608"
  by (rule float32_evalI [where e = 0]) (simp_all add: powr_eval)

lemma rounded_8: "float32 (3 / 2) = 3 / 2"
  by (rule float32_evalI [where e = 0]) (simp_all add: powr_eval)

lemma rounded_9: "float32 (55924055 / 33554432) = 6990507 / 4194304"
  by (rule float32_evalI [where e = 0]) (simp_all add: powr_eval)

lemma rounded_10: "float32 (2) = 2"
  by (rule float32_evalI [where e = 1]) (simp_all add: powr_eval)

lemma rounded_11: "float32 (78293677 / 33554432) = 4893355 / 2097152"
  by (rule float32_evalI [where e = 1]) (simp_all add: powr_eval)

lemma rounded_12: "float32 (5 / 2) = 5 / 2"
  by (rule float32_evalI [where e = 1]) (simp_all add: powr_eval)

lemma rounded_13: "float32 (3) = 3"
  by (rule float32_evalI [where e = 1]) (simp_all add: powr_eval)

lemma rounded_14: "float32 (7 / 2) = 7 / 2"
  by (rule float32_evalI [where e = 1]) (simp_all add: powr_eval)

lemma rounded_15: "float32 (4) = 4"
  by (rule float32_evalI [where e = 2]) (simp_all add: powr_eval)

lemma rounded_16: "float32 (40544939 / 8388608) = 10136235 / 2097152"
  by (rule float32_evalI [where e = 2]) (simp_all add: powr_eval)

lemma rounded_17: "float32 (5) = 5"
  by (rule float32_evalI [where e = 2]) (simp_all add: powr_eval)

lemma rounded_18: "float32 (11 / 2) = 11 / 2"
  by (rule float32_evalI [where e = 2]) (simp_all add: powr_eval)

lemma rounded_19: "float32 (6) = 6"
  by (rule float32_evalI [where e = 2]) (simp_all add: powr_eval)

lemma rounded_20: "float32 (13 / 2) = 13 / 2"
  by (rule float32_evalI [where e = 2]) (simp_all add: powr_eval)

lemma rounded_21: "float32 (27962027 / 4194304) = 6990507 / 1048576"
  by (rule float32_evalI [where e = 2]) (simp_all add: powr_eval)

lemma rounded_22: "float32 (7) = 7"
  by (rule float32_evalI [where e = 2]) (simp_all add: powr_eval)

lemma rounded_23: "float32 (246065835 / 33554432) = 15379115 / 2097152"
  by (rule float32_evalI [where e = 2]) (simp_all add: powr_eval)

lemma rounded_24: "float32 (15 / 2) = 15 / 2"
  by (rule float32_evalI [where e = 2]) (simp_all add: powr_eval)

lemma rounded_25: "float32 (128625323 / 16777216) = 16078165 / 2097152"
  by (rule float32_evalI [where e = 2]) (simp_all add: powr_eval)

lemma rounded_26: "float32 (8) = 8"
  by (rule float32_evalI [where e = 3]) (simp_all add: powr_eval)

lemma rounded_27: "float32 (17 / 2) = 17 / 2"
  by (rule float32_evalI [where e = 3]) (simp_all add: powr_eval)

lemma rounded_28: "float32 (9) = 9"
  by (rule float32_evalI [where e = 3]) (simp_all add: powr_eval)

lemma rounded_29: "float32 (21 / 2) = 21 / 2"
  by (rule float32_evalI [where e = 3]) (simp_all add: powr_eval)

lemma rounded_30: "float32 (22719147 / 2097152) = 5679787 / 524288"
  by (rule float32_evalI [where e = 3]) (simp_all add: powr_eval)

lemma rounded_31: "float32 (99265195 / 8388608) = 12408149 / 1048576"
  by (rule float32_evalI [where e = 3]) (simp_all add: powr_eval)

lemma rounded_32: "float32 (6204075 / 524288) = 6204075 / 524288"
  by (rule float32_evalI [where e = 3]) (simp_all add: powr_eval)

lemma rounded_33: "float32 (16777216) = 16777216"
  by (rule float32_evalI [where e = 24]) (simp_all add: powr_eval)

lemma rounded_34: "float32 (33554433 / 2) = 16777216"
  by (rule float32_evalI [where e = 24]) (simp_all add: powr_eval)

lemma rounded_35: "float64 (1 / 4) = 1 / 4"
  by (rule float64_evalI [where e = "- 2"]) (simp_all add: powr_eval)

lemma rounded_36: "float64 (1 / 3) = 6004799503160661 / 18014398509481984"
  by (rule float64_evalI [where e = "- 2"]) (simp_all add: powr_eval)

lemma rounded_37: "float64 (1 / 2) = 1 / 2"
  by (rule float64_evalI [where e = "- 1"]) (simp_all add: powr_eval)

lemma rounded_38: "float64 (5 / 2) = 5 / 2"
  by (rule float64_evalI [where e = 1]) (simp_all add: powr_eval)

lemma rounded_39: "float64 (3) = 3"
  by (rule float64_evalI [where e = 1]) (simp_all add: powr_eval)

lemma rounded_40: "float64 (7) = 7"
  by (rule float64_evalI [where e = 2]) (simp_all add: powr_eval)

lemma rounded_41: "float64 (8) = 8"
  by (rule float64_evalI [where e = 3]) (simp_all add: powr_eval)

lemmas rounded = float32_0 float32_1 float64_0 float64_1
  rounded_1 rounded_2 rounded_3 rounded_4 rounded_5 rounded_6 rounded_7 rounded_8 rounded_9
  rounded_10 rounded_11 rounded_12 rounded_13 rounded_14 rounded_15 rounded_16 rounded_17
  rounded_18 rounded_19 rounded_20 rounded_21 rounded_22 rounded_23 rounded_24 rounded_25
  rounded_26 rounded_27 rounded_28 rounded_29 rounded_30 rounded_31 rounded_32 rounded_33
  rounded_34 rounded_35 rounded_36 rounded_37 rounded_38 rounded_39 rounded_40 rounded_41

theorem composition_remap_witness:
  "\<exists>out. PrunerFilterCompositionTest (Some PrunerCutoff)
            (FilterSpirin 2 \<lparr>metric_of = DCGlz, max_position = 2\<rparr>) [1, 5, 1, 5] 4
            \<lparr>min_rel = 1, max_rel = 5\<rparr> = Some out
         \<and> length (out_indices out) = 2 \<and> out_indices out ! 0 = 1 \<and> out_indices out ! 1 = 3
         \<and> out_score out = 15 / 2 \<and> sorted_wrt (<) (out_indices out)"
proof -
  have p: "PrunerCutoff [1, 5, 1, 5] 4 \<lparr>min_rel = 1, max_rel = 5\<rparr> = Some [1, 3]"
    by (simp add: PrunerCutoff_def array_eval rounded cong: bind_weak_cong)
  have f: "FilterSpirin 2 \<lparr>metric_of = DCGlz, max_position = 2\<rparr>
             (map (\<lambda>p. [1, 5, 1, 5] ! p) [1, 3]) (length [1, 3 :: nat])
           = Some \<lparr>score = 15 / 2, indices = [0, 1]\<rparr>"
    by (simp add: filter_eval rounded cong: bind_weak_cong let_weak_cong)
  show ?thesis
    using composition_remap [of PrunerCutoff "[1, 5, 1, 5]" 4 "\<lparr>min_rel = 1, max_rel = 5\<rparr>"
        "[1, 3]" "FilterSpirin 2 \<lparr>metric_of = DCGlz, max_position = 2\<rparr>"
        "\<lparr>score = 15 / 2, indices = [0, 1]\<rparr>"] p f
    by (auto simp: less_Suc_eq)
qed

subsection \<open>The flat layout of the table\<close>

lemma row_shift_mono: "r \<le> r' \<Longrightarrow> row_shift k r \<le> row_shift k r'"
  by (induction r') (auto simp: le_Suc_eq)

lemma row_len_pos: "1 \<le> k \<Longrightarrow> 1 \<le> row_len k r"
  by (simp add: row_len_def)

lemma row_shift_ge: "1 \<le> k \<Longrightarrow> r \<le> row_shift k r"
proof (induction r)
  case (Suc r)
  then show ?case using row_len_pos [of k r] by simp
qed simp

lemma cell_index_less:
  assumes "r < n" "c < row_len k r"
  shows "row_shift k r + c < row_shift k n"
proof -
  have "row_shift k r + c < row_shift k (Suc r)" using assms(2) by simp
  also have "\<dots> \<le> row_shift k n" using assms(1) by (intro row_shift_mono) simp
  finally show ?thesis .
qed

lemma row_shift_inj:
  assumes "row_shift k r + c = row_shift k r' + c'" "c < row_len k r" "c' < row_len k r'"
  shows "r = r' \<and> c = c'"
proof -
  have "\<not> r < r'" using cell_index_less [OF _ assms(2), of r'] assms(1) by auto
  moreover have "\<not> r' < r" using cell_index_less [OF _ assms(3), of r] assms(1) by auto
  ultimately have "r = r'" by simp
  then show ?thesis using assms(1) by simp
qed

lemma row_shift_triangle: "n \<le> k \<Longrightarrow> 2 * row_shift k n = n * (n + 1)"
  by (induction n) (auto simp: row_len_def)

lemma row_shift_rectangle: "2 * row_shift k (k + m) = k * (k + 1) + 2 * (k * m)"
proof (induction m)
  case 0
  then show ?case using row_shift_triangle [of k k] by simp
next
  case (Suc m)
  then show ?case by (simp add: row_len_def algebra_simps)
qed

text \<open>The count of the specification, and the count the code allocates.\<close>

lemma row_shift_cells:
  assumes "k \<le> n"
  shows "row_shift k n = k * (k + 1) div 2 + k * (n - k)"
proof -
  obtain m where m: "n = k + m" using assms by (metis le_add_diff_inverse)
  show ?thesis using row_shift_rectangle [of k m] by (simp add: m)
qed

lemma allocated_cells:
  assumes "1 \<le> k" "k \<le> n"
  shows "(k - 1) * (k - 1 + 1) div 2 + k * (n - (k - 1)) = row_shift k n"
proof -
  obtain j where j: "k = Suc j" using assms(1) by (cases k) auto
  obtain m where m: "n = k + m" using assms(2) by (metis le_add_diff_inverse)
  have e: "even (j * Suc j)" by simp
  have "2 * (j * Suc j div 2 + Suc j * Suc m) = j * Suc j + 2 * (Suc j * Suc m)"
    using e by simp
  also have "\<dots> = Suc j * (Suc j + 1) + 2 * (Suc j * m)"
    by (simp add: algebra_simps)
  also have "\<dots> = 2 * row_shift (Suc j) (Suc j + m)"
    using row_shift_rectangle [of "Suc j" m] by simp
  finally have "j * Suc j div 2 + Suc j * Suc m = row_shift (Suc j) (Suc j + m)" by simp
  then show ?thesis by (simp add: j m)
qed

subsection \<open>The buffer of gains and discounts\<close>

lemma discount_factor_Some:
  "p \<le> max_position sf \<Longrightarrow> discount_factor sf p = Some (discount_at (metric_of sf) p)"
  by (simp add: discount_factor_def compute_discounts_def get_def del: upt_Suc)

lemma fill_buffer_ok:
  assumes "n = length rel_list" "k \<le> n" "k \<le> max_position sf" "n + k \<le> length B0"
  shows "\<exists>B. fill_buffer sf rel_list n k B0 = Some B
           \<and> buffer_ok (gains sf rel_list) (discounts sf) n k B"
proof -
  let ?g = "gains sf rel_list" and ?d = "discounts sf"
  let ?I1 = "\<lambda>i B. length B = length B0
               \<and> (\<forall>j<i. load B j = Some (?g j) \<and> load B (n + j) = Some (?d j))"
  let ?b1 = "\<lambda>i buffer. get rel_list i \<bind> (\<lambda>r. store buffer i (gain_factor sf r) \<bind>
               (\<lambda>buffer. discount_factor sf (i + 1) \<bind> (\<lambda>d. store buffer (n + i) d)))"
  have "\<exists>B. for_each [0..<k] ?b1 B0 = Some B \<and> ?I1 k B"
  proof (rule for_each_rule [where I = ?I1])
    fix i t assume i: "i < k" and I: "?I1 i t"
    have d: "discount_factor sf (i + 1) = Some (?d i)"
      using i assms(3) by (simp add: discount_factor_Some discounts_def)
    have "i < length t" using I i assms by simp
    then obtain t1 where t1: "store t i (gain_factor sf (rel_list ! i)) = Some t1"
      by (auto simp: store_def)
    have "n + i < length t1" using length_store [OF t1] I i assms by simp
    then obtain t2 where t2: "store t1 (n + i) (?d i) = Some t2"
      by (auto simp: store_def)
    have l2: "\<And>j. load t2 j = (if j = n + i then Some (?d i) else if j = i
                 then Some (?g i) else load t j)"
      by (simp add: load_store [OF t1] load_store [OF t2] gains_def)
    have "length t2 = length B0"
      using I length_store [OF t1] length_store [OF t2] by simp
    moreover have "\<forall>j<Suc i. load t2 j = Some (?g j) \<and> load t2 (n + j) = Some (?d j)"
    proof (intro allI impI)
      fix j assume "j < Suc i"
      then have "j < n" "j \<noteq> n + i" "n + j \<noteq> i" using i assms(2) by simp_all
      then show "load t2 j = Some (?g j) \<and> load t2 (n + j) = Some (?d j)"
        using I \<open>j < Suc i\<close> by (cases "j = i") (simp_all add: l2)
    qed
    ultimately have "?I1 (Suc i) t2" by simp
    moreover have "?b1 i t = Some t2"
      using t1 t2 d i assms(1,2) by (simp add: get_def)
    ultimately show "\<exists>t'. ?b1 i t = Some t' \<and> ?I1 (Suc i) t'" by blast
  qed simp_all
  then obtain B1 where B1: "for_each [0..<k] ?b1 B0 = Some B1" "?I1 k B1" by blast
  let ?I2 = "\<lambda>i B. length B = length B0 \<and> (\<forall>j<i. load B j = Some (?g j))
               \<and> (\<forall>c<k. load B (n + c) = Some (?d c))"
  let ?b2 = "\<lambda>i buffer. get rel_list i \<bind> (\<lambda>r. store buffer i (gain_factor sf r))"
  have "\<exists>B. for_each [k..<n] ?b2 B1 = Some B \<and> ?I2 n B"
  proof (rule for_each_rule [where I = ?I2])
    show "?I2 k B1" using B1(2) by simp
  next
    fix i t assume i: "k \<le> i" "i < n" and I: "?I2 i t"
    have "i < length t" using I i assms by simp
    then obtain t1 where t1: "store t i (gain_factor sf (rel_list ! i)) = Some t1"
      by (auto simp: store_def)
    have l1: "\<And>j. load t1 j = (if j = i then Some (?g i) else load t j)"
      by (simp add: load_store [OF t1] gains_def)
    have "length t1 = length B0" using I length_store [OF t1] by simp
    moreover have "\<forall>j<Suc i. load t1 j = Some (?g j)"
      using I by (simp add: l1 less_Suc_eq)
    moreover have "\<forall>c<k. load t1 (n + c) = Some (?d c)"
      using I i by (simp add: l1)
    ultimately have "?I2 (Suc i) t1" by simp
    moreover have "?b2 i t = Some t1"
      using t1 i assms(1) by (simp add: get_def)
    ultimately show "\<exists>t'. ?b2 i t = Some t' \<and> ?I2 (Suc i) t'" by blast
  qed (use assms in simp)
  then obtain B where B: "for_each [k..<n] ?b2 B1 = Some B" "?I2 n B" by blast
  have "fill_buffer sf rel_list n k B0 = Some B"
    using B1(1) B(1) by (simp add: fill_buffer_def)
  then show ?thesis using B(2) by (auto simp: buffer_ok_def)
qed

lemma table_upto_store:
  assumes "table_upto g d k M (row_shift k r + c)" "c < row_len k r"
    and "store M (row_shift k r + c) (cell g d r c) = Some M'"
  shows "table_upto g d k M' (Suc (row_shift k r + c))"
  unfolding table_upto_def
proof (intro allI impI)
  fix r' c' assume a: "c' < row_len k r'" "row_shift k r' + c' < Suc (row_shift k r + c)"
  show "load M' (row_shift k r' + c') = Some (cell g d r' c')"
  proof (cases "row_shift k r' + c' = row_shift k r + c")
    case True
    then have "r' = r \<and> c' = c" using row_shift_inj a(1) assms(2) by blast
    then show ?thesis by (simp add: load_store [OF assms(3)])
  next
    case False
    then have "row_shift k r' + c' < row_shift k r + c" using a(2) by simp
    then show ?thesis using assms(1) a(1) False
      by (simp add: load_store [OF assms(3)] table_upto_def)
  qed
qed

lemma table_upto_load:
  "table_upto g d k M t \<Longrightarrow> c < row_len k r \<Longrightarrow> row_shift k r + c < t
   \<Longrightarrow> load M (row_shift k r + c) = Some (cell g d r c)"
  by (simp add: table_upto_def)

subsection \<open>One row of the table\<close>

declare row_shift.simps(2) [simp del]

lemma row_shift_Suc: "row_shift k (Suc r) = row_shift k r + row_len k r"
  by (simp add: row_shift.simps)

lemma row_index_less: "c < row_len k r \<Longrightarrow> row_shift k r + c < row_shift k (Suc r)"
  by (simp add: row_shift_Suc)

lemma buffer_ok_gain: "buffer_ok g d n k B \<Longrightarrow> i < n \<Longrightarrow> load B i = Some (g i)"
  by (simp add: buffer_ok_def)

lemma buffer_ok_discount: "buffer_ok g d n k B \<Longrightarrow> c < k \<Longrightarrow> load B (n + c) = Some (d c)"
  by (simp add: buffer_ok_def)

lemma first_cell_ok:
  assumes B: "buffer_ok g d n k B" and k: "1 \<le> k" and r: "Suc r < n"
    and T: "table_upto g d k M (row_shift k (Suc r))" and len: "row_shift k n \<le> length M"
  shows "\<exists>M'. first_cell B n (row_shift k r) (row_shift k (Suc r)) (Suc r) M = Some M'
           \<and> table_upto g d k M' (Suc (row_shift k (Suc r))) \<and> length M' = length M"
proof -
  have pos: "0 < row_len k r" "0 < row_len k (Suc r)" using k by (simp_all add: row_len_def)
  have a: "load M (row_shift k r + 0) = Some (cell g d r 0)"
    using pos row_index_less [OF pos(1)] by (intro table_upto_load [OF T]) simp_all
  have gl: "load B (Suc r) = Some (g (Suc r))" using buffer_ok_gain [OF B r] .
  have dl: "load B (n + 0) = Some (d 0)" using buffer_ok_discount [OF B, of 0] k by simp
  have "row_shift k (Suc r) + 0 < row_shift k n" using cell_index_less [OF r pos(2)] .
  then have "row_shift k (Suc r) + 0 < length M" using len by simp
  then obtain M' where M': "store M (row_shift k (Suc r) + 0) (cell g d (Suc r) 0) = Some M'"
    by (auto simp: store_def)
  have "table_upto g d k M' (Suc (row_shift k (Suc r) + 0))"
    using table_upto_store [OF _ pos(2) M'] T by simp
  moreover have "first_cell B n (row_shift k r) (row_shift k (Suc r)) (Suc r) M = Some M'"
    unfolding first_cell_def a gl dl using M' by simp
  ultimately show ?thesis using length_store [OF M'] by simp
qed

lemma inner_cell_ok:
  assumes B: "buffer_ok g d n k B" and col: "1 \<le> col" "col \<le> r" "col < k" and r: "Suc r < n"
    and T: "table_upto g d k M (row_shift k (Suc r) + col)" and len: "row_shift k n \<le> length M"
  shows "\<exists>M'. inner_cell B n (row_shift k r) (row_shift k (Suc r)) (Suc r) col M = Some M'
           \<and> table_upto g d k M' (row_shift k (Suc r) + Suc col) \<and> length M' = length M"
proof -
  have c1: "col < row_len k r" "col - 1 < row_len k r" "col < row_len k (Suc r)"
    using col by (auto simp: row_len_def)
  have a: "load M (row_shift k r + col) = Some (cell g d r col)"
    using c1 row_index_less [OF c1(1)] by (intro table_upto_load [OF T]) simp_all
  have "load M (row_shift k r + (col - 1)) = Some (cell g d r (col - 1))"
    using c1 row_index_less [OF c1(2)] by (intro table_upto_load [OF T]) simp_all
  then have b: "load M (row_shift k r + col - 1) = Some (cell g d r (col - 1))"
    using col(1) by simp
  have gl: "load B (Suc r) = Some (g (Suc r))" using buffer_ok_gain [OF B r] .
  have dl: "load B (n + col) = Some (d col)" using buffer_ok_discount [OF B col(3)] .
  have "row_shift k (Suc r) + col < row_shift k n" using cell_index_less [OF r c1(3)] .
  then have "row_shift k (Suc r) + col < length M" using len by simp
  then obtain M' where M': "store M (row_shift k (Suc r) + col) (cell g d (Suc r) col) = Some M'"
    by (auto simp: store_def)
  have v: "cell g d (Suc r) col
             = max (cell g d r col) (float32 (cell g d r (col - 1) + float32 (g (Suc r) * d col)))"
    using col by simp
  have "table_upto g d k M' (Suc (row_shift k (Suc r) + col))"
    using table_upto_store [OF T c1(3) M'] .
  moreover have "inner_cell B n (row_shift k r) (row_shift k (Suc r)) (Suc r) col M = Some M'"
    unfolding inner_cell_def a b gl dl using M' v by simp
  ultimately show ?thesis using length_store [OF M'] by simp
qed

lemma inner_loop_ok:
  assumes B: "buffer_ok g d n k B" and hi: "1 \<le> hi" "hi \<le> Suc r" "hi \<le> k" and r: "Suc r < n"
    and T: "table_upto g d k M (Suc (row_shift k (Suc r)))" and len: "row_shift k n \<le> length M"
  shows "\<exists>M'. for_each [1..<hi] (inner_cell B n (row_shift k r) (row_shift k (Suc r)) (Suc r)) M
             = Some M'
           \<and> table_upto g d k M' (row_shift k (Suc r) + hi) \<and> length M' = length M"
proof -
  have "\<exists>M'. for_each [1..<hi] (inner_cell B n (row_shift k r) (row_shift k (Suc r)) (Suc r)) M
             = Some M' \<and> cols_inv g d k (length M) (row_shift k (Suc r)) hi M'"
  proof (rule for_each_rule [where I = "cols_inv g d k (length M) (row_shift k (Suc r))"])
    show "cols_inv g d k (length M) (row_shift k (Suc r)) 1 M"
      using T by (simp add: cols_inv_def)
  next
    fix col t assume c: "1 \<le> col" "col < hi"
      and I: "cols_inv g d k (length M) (row_shift k (Suc r)) col t"
    have "\<exists>M'. inner_cell B n (row_shift k r) (row_shift k (Suc r)) (Suc r) col t = Some M'
           \<and> table_upto g d k M' (row_shift k (Suc r) + Suc col) \<and> length M' = length t"
      using c hi I len by (intro inner_cell_ok [OF B _ _ _ r]) (simp_all add: cols_inv_def)
    then show "\<exists>t'. inner_cell B n (row_shift k r) (row_shift k (Suc r)) (Suc r) col t = Some t'
                 \<and> cols_inv g d k (length M) (row_shift k (Suc r)) (Suc col) t'"
      using I by (auto simp: cols_inv_def)
  qed (use hi in simp)
  then show ?thesis by (auto simp: cols_inv_def)
qed

lemma triangular_row_ok:
  assumes B: "buffer_ok g d n k B" and r: "Suc r < k" "k \<le> n"
    and T: "table_upto g d k M (row_shift k (Suc r))" and len: "row_shift k n \<le> length M"
  shows "\<exists>M'. triangular_row B n (Suc r) (row_shift k r, c0, M)
             = Some (row_shift k (Suc r), row_shift k (Suc r), M')
           \<and> table_upto g d k M' (row_shift k (Suc (Suc r))) \<and> length M' = length M"
proof -
  have rn: "Suc r < n" and k1: "1 \<le> k" using r by simp_all
  have curr: "row_shift k r + Suc r = row_shift k (Suc r)"
    using r by (simp add: row_len_def row_shift_Suc)
  obtain M1 where M1: "first_cell B n (row_shift k r) (row_shift k (Suc r)) (Suc r) M = Some M1"
    "table_upto g d k M1 (Suc (row_shift k (Suc r)))" "length M1 = length M"
    using first_cell_ok [OF B k1 rn T len] by auto
  obtain M2 where M2:
    "for_each [1..<Suc r] (inner_cell B n (row_shift k r) (row_shift k (Suc r)) (Suc r)) M1
       = Some M2"
    "table_upto g d k M2 (row_shift k (Suc r) + Suc r)" "length M2 = length M"
    using inner_loop_ok [OF B _ _ _ rn M1(2), of "Suc r"] r len M1(3) by auto
  have rl: "r < row_len k r" "Suc r < row_len k (Suc r)" using r by (simp_all add: row_len_def)
  have "load M2 (row_shift k r + r) = Some (cell g d r r)"
    using rl row_index_less [OF rl(1)] by (intro table_upto_load [OF M2(2)]) simp_all
  then have "load M2 (row_shift k r + Suc r - 1) = Some (cell g d r r)" by simp
  then have b: "load M2 (row_shift k (Suc r) - 1) = Some (cell g d r r)"
    by (simp only: curr)
  have gl: "load B (Suc r) = Some (g (Suc r))" using buffer_ok_gain [OF B rn] .
  have dl: "load B (n + Suc r) = Some (d (Suc r))" using buffer_ok_discount [OF B r(1)] .
  have "row_shift k (Suc r) + Suc r < row_shift k n" using cell_index_less [OF rn rl(2)] .
  then have "row_shift k (Suc r) + Suc r < length M2" using len M2(3) by simp
  then obtain M3 where
    M3: "store M2 (row_shift k (Suc r) + Suc r) (cell g d (Suc r) (Suc r)) = Some M3"
    by (auto simp: store_def)
  have "table_upto g d k M3 (Suc (row_shift k (Suc r) + Suc r))"
    using table_upto_store [OF M2(2) rl(2) M3] .
  moreover have "row_shift k (Suc (Suc r)) = Suc (row_shift k (Suc r) + Suc r)"
    using r by (simp add: row_len_def row_shift_Suc [of k "Suc r"])
  ultimately have T3: "table_upto g d k M3 (row_shift k (Suc (Suc r)))" by simp
  have v: "cell g d (Suc r) (Suc r) = float32 (cell g d r r + float32 (g (Suc r) * d (Suc r)))"
    by simp
  have "triangular_row B n (Suc r) (row_shift k r, c0, M)
          = Some (row_shift k (Suc r), row_shift k (Suc r), M3)"
    by (simp only: triangular_row_def prod.case Let_def curr M1(1) M2(1) b gl dl
          M3 [unfolded v] Option.bind.simps)
  then show ?thesis using T3 length_store [OF M3] M2(3) by simp
qed

lemma rectangular_row_ok:
  assumes B: "buffer_ok g d n k B" and r: "1 \<le> k" "k \<le> Suc r" "Suc r < n"
    and T: "table_upto g d k M (row_shift k (Suc r))" and len: "row_shift k n \<le> length M"
  shows "\<exists>M'. rectangular_row B n k (Suc r) (row_shift k r, c0, M)
             = Some (row_shift k (Suc r), row_shift k (Suc r), M')
           \<and> table_upto g d k M' (row_shift k (Suc (Suc r))) \<and> length M' = length M"
proof -
  have curr: "row_shift k r + k = row_shift k (Suc r)"
    using r by (simp add: row_len_def row_shift_Suc)
  obtain M1 where M1: "first_cell B n (row_shift k r) (row_shift k (Suc r)) (Suc r) M = Some M1"
    "table_upto g d k M1 (Suc (row_shift k (Suc r)))" "length M1 = length M"
    using first_cell_ok [OF B r(1) r(3) T len] by auto
  obtain M2 where M2:
    "for_each [1..<k] (inner_cell B n (row_shift k r) (row_shift k (Suc r)) (Suc r)) M1
       = Some M2"
    "table_upto g d k M2 (row_shift k (Suc r) + k)" "length M2 = length M"
    using inner_loop_ok [OF B _ _ _ r(3) M1(2), of k] r len M1(3) by auto
  have "row_shift k (Suc (Suc r)) = row_shift k (Suc r) + k"
    using r by (simp add: row_len_def row_shift_Suc [of k "Suc r"])
  then have T2: "table_upto g d k M2 (row_shift k (Suc (Suc r)))" using M2(2) by simp
  have "rectangular_row B n k (Suc r) (row_shift k r, c0, M)
          = Some (row_shift k (Suc r), row_shift k (Suc r), M2)"
    by (simp only: rectangular_row_def prod.case Let_def curr M1(1) M2(1) Option.bind.simps)
  then show ?thesis using T2 M2(3) by simp
qed

subsection \<open>The two blocks of rows\<close>

lemma storeE:
  assumes "i < length a"
  obtains a' where "store a i v = Some a'"
  using assms by (simp add: store_def)

lemma rows_inv_I:
  "p = row_shift k (row - 1) \<Longrightarrow> table_upto g d k M (row_shift k row) \<Longrightarrow> length M = L
   \<Longrightarrow> rows_inv g d k L row (p, p, M)"
  by (simp add: rows_inv_def)

lemma triangular_loop_ok:
  assumes B: "buffer_ok g d n k B" and k: "1 \<le> k" "k \<le> n"
    and T: "table_upto g d k M (row_shift k 1)" and len: "row_shift k n \<le> length M"
  shows "\<exists>M'. for_each [1..<k] (triangular_row B n) (0, 0, M)
             = Some (row_shift k (k - 1), row_shift k (k - 1), M')
           \<and> table_upto g d k M' (row_shift k k) \<and> length M' = length M"
proof -
  have "\<exists>t. for_each [1..<k] (triangular_row B n) (0, 0, M) = Some t
          \<and> rows_inv g d k (length M) k t"
  proof (rule for_each_rule [where I = "rows_inv g d k (length M)"])
    show "rows_inv g d k (length M) 1 (0, 0, M)" using T by (simp add: rows_inv_def)
  next
    fix row t assume row: "1 \<le> row" "row < k" and I: "rows_inv g d k (length M) row t"
    obtain r where r: "row = Suc r" using row(1) by (cases row) auto
    obtain M1 where t: "t = (row_shift k r, row_shift k r, M1)"
      and T1: "table_upto g d k M1 (row_shift k (Suc r))" and l1: "length M1 = length M"
      using I by (cases t) (auto simp: rows_inv_def r)
    obtain M2 where "triangular_row B n (Suc r) (row_shift k r, row_shift k r, M1)
             = Some (row_shift k (Suc r), row_shift k (Suc r), M2)"
      "table_upto g d k M2 (row_shift k (Suc (Suc r)))" "length M2 = length M1"
      using triangular_row_ok [OF B _ k(2) T1, of "row_shift k r"] row(2) len l1
      by (auto simp: r)
    then show "\<exists>t'. triangular_row B n row t = Some t' \<and> rows_inv g d k (length M) (Suc row) t'"
      using l1 by (simp add: r t rows_inv_def)
  qed (use k in simp)
  then show ?thesis by (auto simp: rows_inv_def)
qed

lemma rectangular_loop_ok:
  assumes B: "buffer_ok g d n k B" and k: "1 \<le> k" "k \<le> n"
    and T: "table_upto g d k M (row_shift k k)" and len: "row_shift k n \<le> length M"
  shows "\<exists>M'. for_each [k..<n] (rectangular_row B n k) (row_shift k (k - 1), row_shift k (k - 1), M)
             = Some (row_shift k (n - 1), row_shift k (n - 1), M')
           \<and> table_upto g d k M' (row_shift k n) \<and> length M' = length M"
proof -
  have "\<exists>t. for_each [k..<n] (rectangular_row B n k)
               (row_shift k (k - 1), row_shift k (k - 1), M) = Some t
          \<and> rows_inv g d k (length M) n t"
  proof (rule for_each_rule [where I = "rows_inv g d k (length M)"])
    show "rows_inv g d k (length M) k (row_shift k (k - 1), row_shift k (k - 1), M)"
      using T by (simp add: rows_inv_def)
  next
    fix row t assume row: "k \<le> row" "row < n" and I: "rows_inv g d k (length M) row t"
    obtain r where r: "row = Suc r" using row(1) k(1) by (cases row) auto
    obtain M1 where t: "t = (row_shift k r, row_shift k r, M1)"
      and T1: "table_upto g d k M1 (row_shift k (Suc r))" and l1: "length M1 = length M"
      using I by (cases t) (auto simp: rows_inv_def r)
    obtain M2 where "rectangular_row B n k (Suc r) (row_shift k r, row_shift k r, M1)
             = Some (row_shift k (Suc r), row_shift k (Suc r), M2)"
      "table_upto g d k M2 (row_shift k (Suc (Suc r)))" "length M2 = length M1"
      using rectangular_row_ok [OF B k(1) _ _ T1, of "row_shift k r"] row len l1
      by (auto simp: r)
    then show "\<exists>t'. rectangular_row B n k row t = Some t'
                 \<and> rows_inv g d k (length M) (Suc row) t'"
      using l1 by (simp add: r t rows_inv_def)
  qed (use k in simp)
  then show ?thesis by (auto simp: rows_inv_def)
qed

text \<open>The table after the two loops, from the first cell on.\<close>

lemma first_row_ok:
  assumes "1 \<le> k" "1 \<le> length M0"
  shows "\<exists>M. store M0 0 (float32 (g 0 * d 0)) = Some M \<and> table_upto g d k M (row_shift k 1)
           \<and> length M = length M0"
proof -
  have "row_shift k 0 + 0 < length M0" using assms(2) by (cases M0) simp_all
  then obtain M where M: "store M0 (row_shift k 0 + 0) (cell g d 0 0) = Some M"
    by (rule storeE)
  have "table_upto g d k M0 (row_shift k 0 + 0)" by (simp add: table_upto_def)
  then have "table_upto g d k M (Suc (row_shift k 0 + 0))"
    using table_upto_store [OF _ _ M] assms(1) by (simp add: row_len_def)
  moreover have "row_shift k 1 = Suc 0" using assms(1) by (simp add: row_shift_Suc row_len_def)
  ultimately show ?thesis using M length_store [OF M] by simp
qed

subsection \<open>The best column and the shape of the trace back\<close>

lemma best_loop_ok:
  assumes T: "table_upto g d k M (row_shift k (Suc r))" and k: "1 \<le> k" "k \<le> Suc r"
  shows "\<exists>sc bc. for_each [0..<k] (best_in_row M (row_shift k r)) (0, 0) = Some (sc, bc)
           \<and> best_inv (cell g d r) k (sc, bc)"
proof -
  have "\<exists>t. for_each [0..<k] (best_in_row M (row_shift k r)) (0, 0) = Some t
          \<and> best_inv (cell g d r) k t"
  proof (rule for_each_rule [where I = "best_inv (cell g d r)"])
    show "best_inv (cell g d r) 0 (0, 0)" by (simp add: best_inv_def)
  next
    fix col t assume col: "col < k" and I: "best_inv (cell g d r) col t"
    obtain sc bc where t: "t = (sc, bc)" by (cases t)
    have "col < row_len k r" using col k by (simp add: row_len_def)
    then have l: "load M (row_shift k r + col) = Some (cell g d r col)"
      using row_index_less [of col k r] by (intro table_upto_load [OF T]) simp_all
    have "best_inv (cell g d r) (Suc col)
            (if cell g d r col > sc then (cell g d r col, col) else (sc, bc))"
      using I unfolding t best_inv_def by (auto simp: less_Suc_eq)
    then show "\<exists>t'. best_in_row M (row_shift k r) col t = Some t'
                 \<and> best_inv (cell g d r) (Suc col) t'"
      by (simp add: best_in_row_def t l)
  qed simp
  then show ?thesis by auto
qed

lemma best_loop_shape:
  assumes "for_each [0..<k] (best_in_row M c0) (0, 0) = Some (sc, bc)"
  shows "bc = 0 \<or> bc < k"
proof -
  have "best_shape k (sc, bc)"
  proof (rule for_each_result [OF assms, where I = best_shape])
    show "best_shape 0 (0, 0)" by (simp add: best_shape_def)
  next
    fix i u u' assume "best_shape i u" "best_in_row M c0 i u = Some u'"
    then show "best_shape (Suc i) u'"
      by (cases u) (auto simp: best_shape_def best_in_row_def split: bind_splits if_splits)
  qed simp
  then show ?thesis by (simp add: best_shape_def)
qed

text \<open>
  What the loop through the rows returns, whatever the table holds: the rows it pushed are
  strictly decreasing and lie in \<open>1..row\<close>; it pushed \<open>best_column + 1\<close> rows when it
  left through \<open>break\<close>, and at most \<open>best_column\<close> rows otherwise.
\<close>

lemma trace_back_shape:
  "trace_back M k row (cur, bc, idx) = Some (cur', bc', idx') \<Longrightarrow>
   \<exists>new. idx' = idx @ new \<and> sorted_wrt (>) new \<and> (\<forall>x\<in>set new. 1 \<le> x \<and> x \<le> row)
     \<and> (bc' = 2 ^ 32 - 1 \<and> length new = Suc bc \<and> cur' \<noteq> 0
         \<or> bc' \<le> bc \<and> length new = bc - bc')"
proof (induction row arbitrary: cur bc idx)
  case 0
  then show ?case by simp
next
  case (Suc r)
  let ?prev = "cur - (if Suc r < k then Suc r else k)"
  from Suc.prems obtain a b where ge: "\<not> cur < Suc r"
    and a: "load M (cur + bc) = Some a" and b: "load M (?prev + bc) = Some b"
    and res: "(if a > b
               then (if bc = 0 then Some (cur, 2 ^ 32 - 1, idx @ [Suc r])
                     else trace_back M k r (?prev, bc - 1, idx @ [Suc r]))
               else trace_back M k r (?prev, bc, idx)) = Some (cur', bc', idx')"
    by (auto simp: Let_def split: if_splits bind_splits)
  show ?case
  proof (cases "a > b")
    case False
    then have "trace_back M k r (?prev, bc, idx) = Some (cur', bc', idx')" using res by simp
    from Suc.IH [OF this] show ?thesis by fastforce
  next
    case True
    show ?thesis
    proof (cases "bc = 0")
      case True
      then have "cur' = cur" "bc' = 2 ^ 32 - 1" "idx' = idx @ [Suc r]"
        using res \<open>a > b\<close> by simp_all
      then show ?thesis using ge True by (intro exI [of _ "[Suc r]"]) simp
    next
      case False
      then have "trace_back M k r (?prev, bc - 1, idx @ [Suc r]) = Some (cur', bc', idx')"
        using res \<open>a > b\<close> by simp
      from Suc.IH [OF this] obtain new where new: "idx' = (idx @ [Suc r]) @ new"
        "sorted_wrt (>) new" "\<forall>x\<in>set new. 1 \<le> x \<and> x \<le> r"
        "bc' = 2 ^ 32 - 1 \<and> length new = Suc (bc - 1) \<and> cur' \<noteq> 0
         \<or> bc' \<le> bc - 1 \<and> length new = bc - 1 - bc'"
        by blast
      show ?thesis
        using new False by (intro exI [of _ "Suc r # new"]) auto
    qed
  qed
qed

lemma any_index_less:
  assumes "r < n" "k \<le> n" "bc < k"
  shows "row_shift k r + bc < row_shift k n"
proof -
  obtain m where m: "n = Suc m" using assms(1) by (cases n) auto
  have "row_shift k r \<le> row_shift k m" using assms(1) m by (intro row_shift_mono) simp
  moreover have "row_shift k n = row_shift k m + k"
    using assms(2) by (simp add: m row_shift_Suc row_len_def)
  ultimately show ?thesis using assms(3) by simp
qed

lemma prev_row_shift:
  "1 \<le> k \<Longrightarrow> row_shift k (Suc r) - (if Suc r < k then Suc r else k) = row_shift k r"
  by (simp add: row_shift_Suc row_len_def)

text \<open>On a table whose cells are all written, the loop through the rows never fails.\<close>

lemma trace_back_total:
  assumes "\<forall>i<row_shift k n. \<exists>v. load M i = Some v" "1 \<le> k" "k \<le> n" "row < n" "bc < k"
  shows "\<exists>res. trace_back M k row (row_shift k row, bc, idx) = Some res"
  using assms(4,5)
proof (induction row arbitrary: bc idx)
  case 0
  then show ?case by simp
next
  case (Suc r)
  have ge: "\<not> row_shift k (Suc r) < Suc r" using row_shift_ge [OF assms(2), of "Suc r"] by simp
  obtain a where a: "load M (row_shift k (Suc r) + bc) = Some a"
    using assms(1) any_index_less [OF Suc.prems(1) assms(3) Suc.prems(2)] by blast
  have "r < n" using Suc.prems(1) by simp
  then obtain b where b: "load M (row_shift k r + bc) = Some b"
    using assms(1) any_index_less [OF _ assms(3) Suc.prems(2), of r] by blast
  have r1: "\<exists>res. trace_back M k r (row_shift k r, bc, idx) = Some res"
    using Suc.IH [of bc idx] Suc.prems by simp
  have r2: "\<exists>res. trace_back M k r (row_shift k r, bc - 1, idx @ [Suc r]) = Some res"
    using Suc.IH [of "bc - 1" "idx @ [Suc r]"] Suc.prems by simp
  show ?case
    using ge a b r1 r2 by (simp add: prev_row_shift [OF assms(2)] Let_def)
qed

subsection \<open>The run of the filter on sizes that fit\<close>

lemma M_cells_in_range:
  assumes "1 \<le> k" "k \<le> n" "(k - 1) * k < 2 ^ 31"
    "(k - 1) * k div 2 + k * (n - (k - 1)) < 2 ^ 32" "n + k < 2 ^ 32"
  shows "M_cells k n = Some (row_shift k n)"
proof -
  have n: "n < 2 ^ 32" using assms(5) by simp
  have "(n + 2 ^ 32 - (k - 1)) mod 2 ^ 32 = (n - (k - 1) + 2 ^ 32) mod 2 ^ 32"
    using assms(1,2) by (intro arg_cong [where f = "\<lambda>x. x mod 2 ^ 32"]) simp
  also have "\<dots> = n - (k - 1)" using n by simp
  finally have d: "(n + 2 ^ 32 - (k - 1)) mod 2 ^ 32 = n - (k - 1)" .
  have p: "k * (n - (k - 1)) < 2 ^ 32" using assms(4) by simp
  have "M_cells k n = Some ((k - 1) * (k - 1 + 1) div 2 + k * (n - (k - 1)))"
    unfolding M_cells_def d using assms(1,3,4) p by simp
  then show ?thesis using allocated_cells [OF assms(1,2)] by simp
qed

text \<open>The run of the filter up to the loop through the rows.\<close>

lemma filter_impl_run:
  assumes n: "n = length rel_list" "1 \<le> n" and tk: "1 \<le> this_k"
    and fit: "in_range sf this_k n"
  defines "k \<equiv> min this_k n" and "g \<equiv> gains sf rel_list" and "d \<equiv> discounts sf"
  shows "\<exists>M sc bc. table_upto g d k M (row_shift k n) \<and> length M = row_shift k n
           \<and> best_inv (cell g d (n - 1)) k (sc, bc)
           \<and> filter_impl sf this_k rel_list n =
               trace_back M k (n - 1) (row_shift k (n - 1), bc, []) \<bind>
               (\<lambda>(cur, bc', idx).
                  if bc' = 2 ^ 32 - 1 \<or> cur = 0
                  then Some \<lparr>score = sc, indices = rev (if cur = 0 then idx @ [0] else idx)\<rparr>
                  else None)"
proof -
  have k: "1 \<le> k" "k \<le> n" using n(2) tk by (simp_all add: k_def)
  have r: "k \<le> max_position sf" "(k - 1) * k < 2 ^ 31"
    "(k - 1) * k div 2 + k * (n - (k - 1)) < 2 ^ 32" "n + k < 2 ^ 32"
    using fit by (simp_all add: in_range_def k_def Let_def)
  have c0: "(n = 0 \<or> this_k = 0) = False" using n(2) tk by simp
  have ck: "(if n < this_k then n else this_k) = k" by (simp add: k_def min_def)
  have cells: "M_cells k n = Some (row_shift k n)"
    using M_cells_in_range [OF k r(2,3,4)] .
  have bc: "buffer_cells k n = n + k" using r(4) by (simp add: buffer_cells_def)
  obtain B where B: "fill_buffer sf rel_list n k (new_array (n + k)) = Some B"
    "buffer_ok g d n k B"
    using fill_buffer_ok [OF n(1) k(2) r(1), of "new_array (n + k)"]
    by (auto simp: new_array_def g_def d_def)
  have g0: "load B 0 = Some (g 0)" using buffer_ok_gain [OF B(2), of 0] n(2) by simp
  have d0: "load B (n + 0) = Some (d 0)" using buffer_ok_discount [OF B(2), of 0] k(1) by simp
  have "1 \<le> row_shift k n" using row_shift_ge [OF k(1), of n] n(2) by simp
  then have "1 \<le> length (new_array (row_shift k n) :: real array)" by (simp add: new_array_def)
  from first_row_ok [OF k(1) this, of g d]
  obtain M1 where M1: "store (new_array (row_shift k n)) 0 (float32 (g 0 * d 0)) = Some M1"
    "table_upto g d k M1 (row_shift k 1)" "length M1 = row_shift k n"
    by (auto simp: new_array_def)
  obtain M2 where M2: "for_each [1..<k] (triangular_row B n) (0, 0, M1)
       = Some (row_shift k (k - 1), row_shift k (k - 1), M2)"
    "table_upto g d k M2 (row_shift k k)" "length M2 = row_shift k n"
    using triangular_loop_ok [OF B(2) k M1(2)] M1(3) by auto
  obtain M3 where M3: "for_each [k..<n] (rectangular_row B n k)
         (row_shift k (k - 1), row_shift k (k - 1), M2)
       = Some (row_shift k (n - 1), row_shift k (n - 1), M3)"
    "table_upto g d k M3 (row_shift k n)" "length M3 = row_shift k n"
    using rectangular_loop_ok [OF B(2) k M2(2)] M2(3) by auto
  obtain m where m: "n = Suc m" using n(2) by (cases n) auto
  obtain sc bc where best:
    "for_each [0..<k] (best_in_row M3 (row_shift k (n - 1))) (0, 0) = Some (sc, bc)"
    "best_inv (cell g d (n - 1)) k (sc, bc)"
    using best_loop_ok [of g d k M3 m] M3(2) k by (auto simp: m)
  have "filter_impl sf this_k rel_list n =
               trace_back M3 k (n - 1) (row_shift k (n - 1), bc, []) \<bind>
               (\<lambda>(cur, bc', idx).
                  if bc' = 2 ^ 32 - 1 \<or> cur = 0
                  then Some \<lparr>score = sc, indices = rev (if cur = 0 then idx @ [0] else idx)\<rparr>
                  else None)"
    by (simp only: filter_impl_def c0 ck cells bc B(1) g0 d0 M1(1) M2(1) M3(1) best(1)
          Let_def if_False Option.bind.simps prod.case)
  then show ?thesis using M3(2,3) best(2) by blast
qed

subsection \<open>The filter returns; the shape of every solution\<close>

lemma trace_back_returns:
  assumes "\<forall>i<row_shift k n. \<exists>v. load M i = Some v" "1 \<le> k" "k \<le> n" "row < n" "bc < k"
  shows "\<exists>cur' bc' idx'. trace_back M k row (row_shift k row, bc, idx) = Some (cur', bc', idx')
           \<and> (bc' = 2 ^ 32 - 1 \<or> cur' = 0)"
  using assms(4,5)
proof (induction row arbitrary: bc idx)
  case 0
  then show ?case by simp
next
  case (Suc r)
  have ge: "\<not> row_shift k (Suc r) < Suc r" using row_shift_ge [OF assms(2), of "Suc r"] by simp
  obtain a where a: "load M (row_shift k (Suc r) + bc) = Some a"
    using assms(1) any_index_less [OF Suc.prems(1) assms(3) Suc.prems(2)] by blast
  have "r < n" using Suc.prems(1) by simp
  then obtain b where b: "load M (row_shift k r + bc) = Some b"
    using assms(1) any_index_less [OF _ assms(3) Suc.prems(2), of r] by blast
  have r1: "\<exists>cur' bc' idx'. trace_back M k r (row_shift k r, bc, idx) = Some (cur', bc', idx')
              \<and> (bc' = 2 ^ 32 - 1 \<or> cur' = 0)"
    using Suc.IH [of bc idx] Suc.prems by simp
  have r2: "\<exists>cur' bc' idx'. trace_back M k r (row_shift k r, bc - 1, idx @ [Suc r])
                = Some (cur', bc', idx') \<and> (bc' = 2 ^ 32 - 1 \<or> cur' = 0)"
    using Suc.IH [of "bc - 1" "idx @ [Suc r]"] Suc.prems by simp
  show ?case
    using ge a b r1 r2 by (simp add: prev_row_shift [OF assms(2)] Let_def)
qed

lemma index_decompose:
  "i < row_shift k n \<Longrightarrow> \<exists>r c. r < n \<and> c < row_len k r \<and> i = row_shift k r + c"
proof (induction n)
  case 0
  then show ?case by simp
next
  case (Suc n)
  show ?case
  proof (cases "i < row_shift k n")
    case True
    then show ?thesis using Suc.IH less_Suc_eq by blast
  next
    case False
    then have "i - row_shift k n < row_len k n" "i = row_shift k n + (i - row_shift k n)"
      using Suc.prems by (simp_all add: row_shift_Suc)
    then show ?thesis by blast
  qed
qed

lemma table_upto_full:
  assumes "table_upto g d k M (row_shift k n)"
  shows "\<forall>i<row_shift k n. \<exists>v. load M i = Some v"
proof (intro allI impI)
  fix i assume i: "i < row_shift k n"
  then obtain r c where rc: "r < n" "c < row_len k r" "i = row_shift k r + c"
    using index_decompose by blast
  show "\<exists>v. load M i = Some v"
    using table_upto_load [OF assms rc(2)] i rc(3) by simp
qed

lemma best_inv_column: "best_inv f k (sc, bc) \<Longrightarrow> 1 \<le> k \<Longrightarrow> bc < k"
  by (auto simp: best_inv_def)

lemma filter_impl_returns:
  assumes "n = length rel_list" "in_range sf this_k n"
  shows "\<exists>sol. filter_impl sf this_k rel_list n = Some sol"
proof (cases "n = 0 \<or> this_k = 0")
  case True
  then show ?thesis by (simp add: filter_impl_def)
next
  case False
  then have n: "1 \<le> n" and tk: "1 \<le> this_k" by simp_all
  define k where "k = min this_k n"
  have k: "1 \<le> k" "k \<le> n" using n tk by (simp_all add: k_def)
  obtain M sc bc where M: "table_upto (gains sf rel_list) (discounts sf) k M (row_shift k n)"
    and best: "best_inv (cell (gains sf rel_list) (discounts sf) (n - 1)) k (sc, bc)"
    and run: "filter_impl sf this_k rel_list n =
               trace_back M k (n - 1) (row_shift k (n - 1), bc, []) \<bind>
               (\<lambda>(cur, bc', idx).
                  if bc' = 2 ^ 32 - 1 \<or> cur = 0
                  then Some \<lparr>score = sc, indices = rev (if cur = 0 then idx @ [0] else idx)\<rparr>
                  else None)"
    using filter_impl_run [OF assms(1) n tk assms(2)] unfolding k_def by blast
  obtain cur' bc' idx' where
    "trace_back M k (n - 1) (row_shift k (n - 1), bc, []) = Some (cur', bc', idx')"
    "bc' = 2 ^ 32 - 1 \<or> cur' = 0"
    using trace_back_returns [OF table_upto_full [OF M] k, of "n - 1" bc "[]"]
      best_inv_column [OF best k(1)] n by auto
  then show ?thesis unfolding run by auto
qed

lemma filter_impl_parts:
  assumes "filter_impl sf this_k rel_list n = Some sol" "n \<noteq> 0" "this_k \<noteq> 0"
  obtains cells M cur sc bc cur' bc' idx' where
    "M_cells (min this_k n) n = Some cells"
    "for_each [0..<min this_k n] (best_in_row M cur) (0, 0) = Some (sc, bc)"
    "trace_back M (min this_k n) (n - 1) (cur, bc, []) = Some (cur', bc', idx')"
    "bc' = 2 ^ 32 - 1 \<or> cur' = 0"
    "sol = \<lparr>score = sc, indices = rev (if cur' = 0 then idx' @ [0] else idx')\<rparr>"
proof -
  have ck: "(if n < this_k then n else this_k) = min this_k n" by (simp add: min_def)
  show ?thesis
    using assms that unfolding filter_impl_def ck Let_def
    by (auto split: if_splits bind_splits prod.splits)
qed

lemma M_cells_small:
  assumes "M_cells k n = Some cells"
  shows "k < 2 ^ 16"
proof (rule ccontr)
  define p where "p = (k - 1) * (k - 1 + 1)"
  have a: "p < 2 ^ 31" using assms by (simp add: M_cells_def p_def split: if_splits)
  assume "\<not> k < 2 ^ 16"
  then have "65535 \<le> k - 1" "65536 \<le> k - 1 + 1" by simp_all
  then have "65535 * 65536 \<le> p" unfolding p_def by (rule mult_le_mono)
  then show False using a by simp
qed

lemma filter_impl_shape:
  assumes "filter_impl sf this_k rel_list n = Some sol"
  shows "sorted_wrt (<) (indices sol) \<and> length (indices sol) \<le> min this_k n
         \<and> set (indices sol) \<subseteq> {..<n} \<and> (1 \<le> n \<and> 1 \<le> this_k \<longrightarrow> indices sol \<noteq> [])"
proof (cases "n = 0 \<or> this_k = 0")
  case True
  then show ?thesis using assms by (auto simp: filter_impl_def)
next
  case False
  then have n: "n \<noteq> 0" and tk: "this_k \<noteq> 0" by simp_all
  define k where "k = min this_k n"
  have k: "1 \<le> k" using n tk by (simp add: k_def)
  from filter_impl_parts [OF assms n tk]
  obtain cells M cur sc bc cur' bc' idx' where p:
    "M_cells k n = Some cells"
    "for_each [0..<k] (best_in_row M cur) (0, 0) = Some (sc, bc)"
    "trace_back M k (n - 1) (cur, bc, []) = Some (cur', bc', idx')"
    "bc' = 2 ^ 32 - 1 \<or> cur' = 0"
    "sol = \<lparr>score = sc, indices = rev (if cur' = 0 then idx' @ [0] else idx')\<rparr>"
    unfolding k_def by blast
  have bc: "bc < k" using best_loop_shape [OF p(2)] k by auto
  have small: "bc < 2 ^ 32 - 1" using M_cells_small [OF p(1)] bc by simp
  from trace_back_shape [OF p(3)] obtain new where new: "idx' = new"
    "sorted_wrt (>) new" "\<forall>x\<in>set new. 1 \<le> x \<and> x \<le> n - 1"
    "bc' = 2 ^ 32 - 1 \<and> length new = Suc bc \<and> cur' \<noteq> 0 \<or> bc' \<le> bc \<and> length new = bc - bc'"
    by auto
  have s0: "sorted_wrt (>) (new @ [0])"
    using new(2,3) by (auto simp: sorted_wrt_append)
  have sorted: "sorted_wrt (<) (indices sol)"
    using new(2) s0 by (simp add: p(5) new(1) sorted_wrt_rev del: sorted_wrt_append)
  have len: "length (indices sol) \<le> k"
    using new(4) bc by (auto simp: p(5) new(1))
  have rng: "set (indices sol) \<subseteq> {..<n}"
    using new(3) n by (auto simp: p(5) new(1))
  have ne: "indices sol \<noteq> []"
    using new(4) p(4) small by (auto simp: p(5) new(1))
  show ?thesis using sorted len rng ne by (simp add: k_def)
qed

subsection \<open>The recurrence bounds the score of every sequence\<close>

lemma seq_score_Nil: "seq_score g d [] = 0"
  by (simp add: seq_score_def)

lemma seq_score_snoc:
  "seq_score g d (S @ [x]) = float32 (seq_score g d S + float32 (g x * d (length S)))"
proof -
  have "foldl (\<lambda>score i. float32 (score + float32 (g ((S @ [x]) ! i) * d i))) 0 [0..<length S]
        = foldl (\<lambda>score i. float32 (score + float32 (g (S ! i) * d i))) 0 [0..<length S]"
    by (rule foldl_cong) (simp_all add: nth_append)
  then show ?thesis by (simp add: seq_score_def)
qed

lemma seq_score_single: "seq_score g d [x] = float32 (g x * d 0)"
  by (simp add: seq_score_def float32_idem)

lemma cell_mono_row: "c \<le> r \<Longrightarrow> cell g d r c \<le> cell g d (Suc r) c"
  by simp

lemma cell_step_ge:
  "0 < c \<Longrightarrow> float32 (cell g d r (c - 1) + float32 (g (Suc r) * d c)) \<le> cell g d (Suc r) c"
  by simp

lemma strict_sorted_length:
  assumes "sorted_wrt (<) S" "set S \<subseteq> {..r}"
  shows "length S \<le> Suc (r :: nat)"
proof -
  have "distinct S" using assms(1) strict_sorted_iff by blast
  then have "length S = card (set S)" by (simp add: distinct_card)
  also have "\<dots> \<le> card {..r}" using assms(2) by (intro card_mono) simp_all
  finally show ?thesis by simp
qed

text \<open>No strictly increasing sequence of \<open>c + 1\<close> rows up to \<open>r\<close> scores more than cell \<open>[r, c]\<close>.\<close>

lemma cell_upper:
  "sorted_wrt (<) S \<Longrightarrow> set S \<subseteq> {..r} \<Longrightarrow> length S = Suc c
   \<Longrightarrow> seq_score g d S \<le> cell g d r c"
proof (induction r arbitrary: S c)
  case 0
  have "length S \<le> 1" using strict_sorted_length [OF "0.prems"(1,2)] by simp
  then have c: "c = 0" using "0.prems"(3) by simp
  then obtain x where "S = [x]" using "0.prems"(3) by (cases S) auto
  then show ?case using "0.prems"(2) c by (simp add: seq_score_single)
next
  case (Suc r)
  obtain S' x where S: "S = S' @ [x]" using Suc.prems(3) by (cases S rule: rev_cases) auto
  have S': "sorted_wrt (<) S'" "\<forall>y\<in>set S'. y < x" "length S' = c" "x \<le> Suc r"
    using Suc.prems by (auto simp: S sorted_wrt_append)
  show ?case
  proof (cases "x = Suc r")
    case True
    have sub: "set S' \<subseteq> {..r}" using S'(2) True by auto
    show ?thesis
    proof (cases c)
      case 0
      then have "S' = []" using S'(3) by simp
      then have "seq_score g d S = float32 (g (Suc r) * d 0)"
        by (simp add: S True seq_score_single)
      then show ?thesis using 0 by simp
    next
      case (Suc c')
      have "seq_score g d S' \<le> cell g d r c'"
        using Suc.IH [OF S'(1) sub] S'(3) Suc by simp
      then have "seq_score g d S' + float32 (g (Suc r) * d c)
                   \<le> cell g d r (c - 1) + float32 (g (Suc r) * d c)"
        using Suc by simp
      then have "seq_score g d S \<le> float32 (cell g d r (c - 1) + float32 (g (Suc r) * d c))"
        unfolding S True seq_score_snoc S'(3) by (rule float32_mono)
      also have "\<dots> \<le> cell g d (Suc r) c" using Suc by (intro cell_step_ge) simp
      finally show ?thesis .
    qed
  next
    case False
    then have sub: "set S \<subseteq> {..r}" using S' by (auto simp: S)
    have "length S \<le> Suc r" using strict_sorted_length [OF Suc.prems(1) sub] .
    then have "c \<le> r" using Suc.prems(3) by simp
    have "seq_score g d S \<le> cell g d r c"
      using Suc.IH [OF Suc.prems(1) sub Suc.prems(3)] .
    also have "\<dots> \<le> cell g d (Suc r) c" using \<open>c \<le> r\<close> by (rule cell_mono_row)
    finally show ?thesis .
  qed
qed

lemma cell_nonneg:
  assumes "\<forall>i\<le>r. 0 \<le> g i" "\<forall>c. 0 \<le> d c"
  shows "0 \<le> cell g d r c"
  using assms(1)
proof (induction r arbitrary: c)
  case 0
  then show ?case using assms(2) by (simp add: float32_nonneg)
next
  case (Suc r)
  have t: "0 \<le> float32 (g (Suc r) * d c)" for c
    using Suc.prems assms(2) by (intro float32_nonneg) simp
  have c: "\<And>c. 0 \<le> cell g d r c" using Suc.IH Suc.prems by simp
  have "0 \<le> float32 (cell g d r (c - 1) + float32 (g (Suc r) * d c))"
    using c [of "c - 1"] t [of c] by (intro float32_nonneg) simp
  then show ?case using c [of c] c [of 0] t [of 0] by (simp add: le_max_iff_disj)
qed

lemma cell_zero:
  assumes "\<forall>i\<le>r. g i = 0"
  shows "cell g d r c = 0"
  using assms by (induction r arbitrary: c) (simp_all add: float32_0)

subsection \<open>The trace back reconstructs a sequence of the best score\<close>

declare cell.simps(2) [simp del]

lemma trace_list_Cons: "trace_list cur (x # new) = trace_list cur new @ [x]"
  by (simp add: trace_list_def)

lemma taken_inv:
  fixes g d :: "nat \<Rightarrow> real"
  assumes g: "0 \<le> g (Suc r)" and anti: "\<forall>c c'. c \<le> c' \<longrightarrow> d c' \<le> d c"
    and bc: "0 < bc" "bc \<le> Suc r"
    and a: "cell g d (Suc r) bc = float32 (cell g d r (bc - 1) + float32 (g (Suc r) * d bc))"
    and inv: "\<forall>c<bc. cell g d (Suc r) c < cell g d (Suc r) bc"
  shows "\<forall>c<bc - 1. cell g d r c < cell g d r (bc - 1)"
proof (intro allI impI)
  fix c assume c: "c < bc - 1"
  then have sc: "Suc c < bc" by simp
  show "cell g d r c < cell g d r (bc - 1)"
  proof (rule ccontr)
    assume "\<not> cell g d r c < cell g d r (bc - 1)"
    then have le: "cell g d r (bc - 1) \<le> cell g d r c" by simp
    have "d bc \<le> d (Suc c)" using anti sc by simp
    then have "g (Suc r) * d bc \<le> g (Suc r) * d (Suc c)" using g by (rule mult_left_mono)
    then have "float32 (g (Suc r) * d bc) \<le> float32 (g (Suc r) * d (Suc c))"
      by (rule float32_mono)
    then have "cell g d r (bc - 1) + float32 (g (Suc r) * d bc)
                 \<le> cell g d r (Suc c - 1) + float32 (g (Suc r) * d (Suc c))"
      using le by simp
    then have "cell g d (Suc r) bc
                 \<le> float32 (cell g d r (Suc c - 1) + float32 (g (Suc r) * d (Suc c)))"
      unfolding a by (rule float32_mono)
    also have "\<dots> \<le> cell g d (Suc r) (Suc c)" by (rule cell_step_ge) simp
    also have "\<dots> < cell g d (Suc r) bc" using inv sc by simp
    finally show False by simp
  qed
qed

lemma kept_inv:
  fixes g d :: "nat \<Rightarrow> real"
  assumes "bc \<le> r" "cell g d (Suc r) bc = cell g d r bc"
    and inv: "\<forall>c<bc. cell g d (Suc r) c < cell g d (Suc r) bc"
  shows "\<forall>c<bc. cell g d r c < cell g d r bc"
proof (intro allI impI)
  fix c assume c: "c < bc"
  then have "cell g d r c \<le> cell g d (Suc r) c" using assms(1) by (intro cell_mono_row) simp
  also have "\<dots> < cell g d (Suc r) bc" using inv c by simp
  finally show "cell g d r c < cell g d r bc" using assms(2) by simp
qed

text \<open>
  With gains that are not negative and discounts that do not increase, the loop through the
  rows returns a sequence of \<open>best_column + 1\<close> rows whose score is the cell it started from.
\<close>

lemma trace_back_value:
  fixes g d :: "nat \<Rightarrow> real"
  assumes g: "\<forall>i<n. 0 \<le> g i" and anti: "\<forall>c c'. c \<le> c' \<longrightarrow> d c' \<le> d c"
    and T: "table_upto g d k M (row_shift k n)" and k: "1 \<le> k" "k \<le> n"
  shows "row < n \<Longrightarrow> bc \<le> row \<Longrightarrow> bc < k
    \<Longrightarrow> \<forall>c<bc. cell g d row c < cell g d row bc
    \<Longrightarrow> \<exists>cur' bc' new.
          trace_back M k row (row_shift k row, bc, idx) = Some (cur', bc', idx @ new)
          \<and> (bc' = 2 ^ 32 - 1 \<or> cur' = 0)
          \<and> sorted_wrt (<) (trace_list cur' new)
          \<and> set (trace_list cur' new) \<subseteq> {..row}
          \<and> length (trace_list cur' new) = Suc bc
          \<and> seq_score g d (trace_list cur' new) = cell g d row bc"
proof (induction row arbitrary: bc idx)
  case 0
  then have "bc = 0" by simp
  then show ?case
    by (intro exI [of _ 0] exI [of _ "[]"]) (simp add: trace_list_def seq_score_single)
next
  case (Suc r)
  have rn: "r < n" using Suc.prems(1) by simp
  have ge: "\<not> row_shift k (Suc r) < Suc r" using row_shift_ge [OF k(1), of "Suc r"] by simp
  have pos: "row_shift k (Suc r) \<noteq> 0" using ge by simp
  have "bc < row_len k (Suc r)" using Suc.prems(2,3) by (simp add: row_len_def)
  then have la: "load M (row_shift k (Suc r) + bc) = Some (cell g d (Suc r) bc)"
    using cell_index_less [OF Suc.prems(1), of bc k] by (intro table_upto_load [OF T]) simp_all
  have gr: "0 \<le> g (Suc r)" using g Suc.prems(1) by simp
  text \<open>The two recursive calls, from the induction hypothesis.\<close>
  have taken: "\<exists>cur' bc' new.
          trace_back M k r (row_shift k r, bc - 1, idx @ [Suc r]) = Some (cur', bc', idx @ new)
          \<and> (bc' = 2 ^ 32 - 1 \<or> cur' = 0)
          \<and> sorted_wrt (<) (trace_list cur' new)
          \<and> set (trace_list cur' new) \<subseteq> {..Suc r}
          \<and> length (trace_list cur' new) = Suc bc
          \<and> seq_score g d (trace_list cur' new) = cell g d (Suc r) bc"
    if bc0: "0 < bc"
      and a: "cell g d (Suc r) bc = float32 (cell g d r (bc - 1) + float32 (g (Suc r) * d bc))"
  proof -
    have inv': "\<forall>c<bc - 1. cell g d r c < cell g d r (bc - 1)"
      using taken_inv [OF gr anti bc0 Suc.prems(2) a Suc.prems(4)] .
    have "bc - 1 \<le> r" "bc - 1 < k" using Suc.prems(2,3) by simp_all
    from Suc.IH [OF rn this inv', of "idx @ [Suc r]"]
    obtain cur' bc' new' where
      tb: "trace_back M k r (row_shift k r, bc - 1, idx @ [Suc r])
             = Some (cur', bc', (idx @ [Suc r]) @ new')"
      and fin: "bc' = 2 ^ 32 - 1 \<or> cur' = 0"
      and srt: "sorted_wrt (<) (trace_list cur' new')"
      and sub: "set (trace_list cur' new') \<subseteq> {..r}"
      and len: "length (trace_list cur' new') = Suc (bc - 1)"
      and sc: "seq_score g d (trace_list cur' new') = cell g d r (bc - 1)"
      by blast
    have "sorted_wrt (<) (trace_list cur' (Suc r # new'))"
      using srt sub by (auto simp: trace_list_Cons sorted_wrt_append)
    moreover have "set (trace_list cur' (Suc r # new')) \<subseteq> {..Suc r}"
      using sub by (auto simp: trace_list_Cons)
    moreover have "length (trace_list cur' (Suc r # new')) = Suc bc"
      using len bc0 by (simp add: trace_list_Cons)
    moreover have "seq_score g d (trace_list cur' (Suc r # new')) = cell g d (Suc r) bc"
      using sc len bc0 by (simp add: trace_list_Cons seq_score_snoc a)
    ultimately show ?thesis using tb fin by (intro exI [of _ cur'] exI [of _ bc']
          exI [of _ "Suc r # new'"]) simp
  qed
  have kept: "\<exists>cur' bc' new.
          trace_back M k r (row_shift k r, bc, idx) = Some (cur', bc', idx @ new)
          \<and> (bc' = 2 ^ 32 - 1 \<or> cur' = 0)
          \<and> sorted_wrt (<) (trace_list cur' new)
          \<and> set (trace_list cur' new) \<subseteq> {..Suc r}
          \<and> length (trace_list cur' new) = Suc bc
          \<and> seq_score g d (trace_list cur' new) = cell g d (Suc r) bc"
    if bcr: "bc \<le> r" and a: "cell g d (Suc r) bc = cell g d r bc"
  proof -
    have inv': "\<forall>c<bc. cell g d r c < cell g d r bc"
      using kept_inv [OF bcr a Suc.prems(4)] .
    from Suc.IH [OF rn bcr Suc.prems(3) inv', of idx]
    obtain cur' bc' new where
      "trace_back M k r (row_shift k r, bc, idx) = Some (cur', bc', idx @ new)"
      "bc' = 2 ^ 32 - 1 \<or> cur' = 0"
      "sorted_wrt (<) (trace_list cur' new)"
      "set (trace_list cur' new) \<subseteq> {..r}"
      "length (trace_list cur' new) = Suc bc"
      "seq_score g d (trace_list cur' new) = cell g d r bc"
      by blast
    then show ?thesis using a
      by (intro exI [of _ cur'] exI [of _ bc'] exI [of _ new]) auto
  qed
  show ?case
  proof (cases "bc = Suc r")
    case True
    then have rk: "Suc r < k" using Suc.prems(3) by simp
    have "row_shift k r + bc = row_shift k (Suc r) + 0"
      using rk by (simp add: True row_shift_Suc row_len_def)
    moreover have "load M (row_shift k (Suc r) + 0) = Some (cell g d (Suc r) 0)"
      using cell_index_less [OF Suc.prems(1), of 0 k] k(1)
      by (intro table_upto_load [OF T]) (simp_all add: row_len_def)
    ultimately have lb: "load M (row_shift k r + bc) = Some (cell g d (Suc r) 0)" by simp
    have gt: "cell g d (Suc r) 0 < cell g d (Suc r) bc" using Suc.prems(4) True by simp
    have a: "cell g d (Suc r) bc = float32 (cell g d r (bc - 1) + float32 (g (Suc r) * d bc))"
      by (simp add: True cell.simps(2))
    have "trace_back M k (Suc r) (row_shift k (Suc r), bc, idx)
            = trace_back M k r (row_shift k r, bc - 1, idx @ [Suc r])"
      using ge la lb gt True by (simp add: prev_row_shift [OF k(1)] Let_def)
    then show ?thesis using taken [OF _ a] True by simp
  next
    case False
    then have bcr: "bc \<le> r" using Suc.prems(2) by simp
    then have "bc < row_len k r" using Suc.prems(3) by (simp add: row_len_def)
    then have lb: "load M (row_shift k r + bc) = Some (cell g d r bc)"
      using cell_index_less [OF rn, of bc k] by (intro table_upto_load [OF T]) simp_all
    show ?thesis
    proof (cases "cell g d r bc < cell g d (Suc r) bc")
      case gt: True
      show ?thesis
      proof (cases "bc = 0")
        case True
        have v: "cell g d (Suc r) 0 = float32 (g (Suc r) * d 0)"
          using gt True by (simp add: max_def cell.simps(2) split: if_splits)
        have "trace_back M k (Suc r) (row_shift k (Suc r), bc, idx)
                = Some (row_shift k (Suc r), 2 ^ 32 - 1, idx @ [Suc r])"
          using ge la lb gt True by (simp add: prev_row_shift [OF k(1)] Let_def)
        then show ?thesis using pos True v
          by (intro exI [of _ "row_shift k (Suc r)"] exI [of _ "2 ^ 32 - 1"]
                exI [of _ "[Suc r]"]) (simp add: trace_list_def seq_score_single)
      next
        case False
        then have bc0: "0 < bc" by simp
        have a: "cell g d (Suc r) bc = float32 (cell g d r (bc - 1) + float32 (g (Suc r) * d bc))"
          using gt bcr bc0 by (simp add: cell.simps(2) max_def split: if_splits)
        have "trace_back M k (Suc r) (row_shift k (Suc r), bc, idx)
                = trace_back M k r (row_shift k r, bc - 1, idx @ [Suc r])"
          using ge la lb gt False by (simp add: prev_row_shift [OF k(1)] Let_def)
        then show ?thesis using taken [OF bc0 a] by simp
      qed
    next
      case False
      moreover have "cell g d r bc \<le> cell g d (Suc r) bc" using bcr by (rule cell_mono_row)
      ultimately have a: "cell g d (Suc r) bc = cell g d r bc" by simp
      have "trace_back M k (Suc r) (row_shift k (Suc r), bc, idx)
              = trace_back M k r (row_shift k r, bc, idx)"
        using ge la lb False by (simp add: prev_row_shift [OF k(1)] Let_def)
      then show ?thesis using kept [OF bcr a] by simp
    qed
  qed
qed

subsection \<open>Gains and discounts of the two metrics\<close>

lemma gain_factor_nonneg: "0 \<le> r \<Longrightarrow> 0 \<le> gain_factor sf r"
proof (cases "metric_of sf")
  case DCG
  assume "0 \<le> r"
  then have "1 \<le> 2 powr r" by (simp add: ge_one_powr_ge_zero)
  then have "float64 1 \<le> float64 (2 powr r)" by (rule float64_mono)
  then have "0 \<le> float64 (2 powr r) - 1" by (simp add: float64_1)
  then show ?thesis by (simp add: gain_factor_def DCG float32_nonneg float64_nonneg)
next
  case DCGlz
  assume "0 \<le> r"
  then show ?thesis by (simp add: gain_factor_def DCGlz)
qed

lemma gain_factor_mono: "a \<le> b \<Longrightarrow> gain_factor sf a \<le> gain_factor sf b"
proof (cases "metric_of sf")
  case DCG
  assume "a \<le> b"
  then have "float64 (2 powr a) \<le> float64 (2 powr b)" by (intro float64_mono) simp
  then have "float64 (float64 (2 powr a) - 1) \<le> float64 (float64 (2 powr b) - 1)"
    by (intro float64_mono) simp
  then show ?thesis by (simp add: gain_factor_def DCG float32_mono)
next
  case DCGlz
  assume "a \<le> b"
  then show ?thesis by (simp add: gain_factor_def DCGlz)
qed

lemma gain_factor_zero: "gain_factor sf 0 = 0"
  by (cases "metric_of sf") (simp_all add: gain_factor_def float64_1 float64_0 float32_0)

lemma gains_nonneg: "\<forall>r\<in>set rel_list. 0 \<le> r \<Longrightarrow> \<forall>i<length rel_list. 0 \<le> gains sf rel_list i"
  by (simp add: gains_def gain_factor_nonneg)

lemma discounts_antimono: "c \<le> c' \<Longrightarrow> discounts sf c' \<le> discounts sf c"
proof (cases "metric_of sf")
  case DCG
  assume "c \<le> c'"
  then have "log 2 (real c + 2) \<le> log 2 (real c' + 2)" by simp
  then have le: "float64 (log 2 (real c + 2)) \<le> float64 (log 2 (real c' + 2))"
    by (rule float64_mono)
  have "1 \<le> log 2 (real c + 2)" by (simp add: le_log_iff)
  then have "float64 1 \<le> float64 (log 2 (real c + 2))" by (rule float64_mono)
  then have "0 < float64 (log 2 (real c + 2))" by (simp add: float64_1)
  then have "1 / float64 (log 2 (real c' + 2)) \<le> 1 / float64 (log 2 (real c + 2))"
    using le by (intro divide_left_mono) simp_all
  then have "float32 (float64 (1 / float64 (log 2 (real c' + 2))))
               \<le> float32 (float64 (1 / float64 (log 2 (real c + 2))))"
    by (intro float32_mono float64_mono)
  then show ?thesis by (simp add: discounts_def discount_at_def DCG add.commute)
next
  case DCGlz
  assume "c \<le> c'"
  then have "1 / real (Suc c') \<le> 1 / real (Suc c)" by (simp add: frac_le)
  then have "float32 (float64 (1 / real (Suc c'))) \<le> float32 (float64 (1 / real (Suc c)))"
    by (intro float32_mono float64_mono)
  then show ?thesis by (simp add: discounts_def discount_at_def DCGlz)
qed

lemma discounts_nonneg: "0 \<le> discounts sf c"
proof (cases "metric_of sf")
  case DCG
  have "1 \<le> log 2 (real c + 2)" by (simp add: le_log_iff)
  then have "float64 1 \<le> float64 (log 2 (real c + 2))" by (rule float64_mono)
  then have "0 \<le> 1 / float64 (log 2 (real c + 2))" by (simp add: float64_1)
  then have "0 \<le> float32 (float64 (1 / float64 (log 2 (real c + 2))))"
    by (intro float32_nonneg float64_nonneg)
  then show ?thesis by (simp add: discounts_def discount_at_def DCG add.commute)
next
  case DCGlz
  have "0 \<le> float32 (float64 (1 / real (Suc c)))"
    by (intro float32_nonneg float64_nonneg) simp
  then show ?thesis by (simp add: discounts_def discount_at_def DCGlz)
qed

text \<open>The result of the filter on a list of relevances that are not negative.\<close>

lemma filter_impl_optimal:
  assumes n: "n = length rel_list" "1 \<le> n" and tk: "1 \<le> this_k"
    and fit: "in_range sf this_k n" and nonneg: "\<forall>r\<in>set rel_list. 0 \<le> r"
  defines "g \<equiv> gains sf rel_list" and "d \<equiv> discounts sf"
  shows "\<exists>sol bc. filter_impl sf this_k rel_list n = Some sol \<and> bc < min this_k n
           \<and> length (indices sol) = Suc bc \<and> sorted_wrt (<) (indices sol)
           \<and> set (indices sol) \<subseteq> {..<n} \<and> score sol = seq_score g d (indices sol)
           \<and> score sol = cell g d (n - 1) bc \<and> 0 \<le> score sol
           \<and> (\<forall>c<min this_k n. cell g d (n - 1) c \<le> score sol)
           \<and> (\<forall>c<bc. cell g d (n - 1) c < score sol)"
proof -
  define k where "k = min this_k n"
  have k: "1 \<le> k" "k \<le> n" using n(2) tk by (simp_all add: k_def)
  obtain M sc bc where M: "table_upto g d k M (row_shift k n)"
    and best: "best_inv (cell g d (n - 1)) k (sc, bc)"
    and run: "filter_impl sf this_k rel_list n =
               trace_back M k (n - 1) (row_shift k (n - 1), bc, []) \<bind>
               (\<lambda>(cur, bc', idx).
                  if bc' = 2 ^ 32 - 1 \<or> cur = 0
                  then Some \<lparr>score = sc, indices = rev (if cur = 0 then idx @ [0] else idx)\<rparr>
                  else None)"
    using filter_impl_run [OF n tk fit] unfolding k_def g_def d_def by blast
  have gpos: "\<forall>i<n. 0 \<le> g i" using gains_nonneg [OF nonneg] n(1) by (simp add: g_def)
  have anti: "\<forall>c c'. c \<le> c' \<longrightarrow> d c' \<le> d c" using discounts_antimono by (simp add: d_def)
  have dpos: "\<forall>c. 0 \<le> d c" using discounts_nonneg by (simp add: d_def)
  have cpos: "0 \<le> cell g d (n - 1) c" for c
    using gpos n(2) by (intro cell_nonneg dpos) simp
  have bck: "bc < k" using best_inv_column [OF best k(1)] .
  have b: "0 \<le> sc" "\<forall>c<k. cell g d (n - 1) c \<le> sc" "\<forall>c<bc. cell g d (n - 1) c < sc"
    "sc = 0 \<and> bc = 0 \<or> sc = cell g d (n - 1) bc"
    using best by (auto simp: best_inv_def)
  have sc: "sc = cell g d (n - 1) bc"
  proof (cases "sc = cell g d (n - 1) bc")
    case False
    then have "sc = 0" "bc = 0" using b(4) by auto
    moreover have "cell g d (n - 1) 0 \<le> sc" using b(2) k(1) by simp
    ultimately show ?thesis using cpos [of 0] by simp
  qed
  have inv: "\<forall>c<bc. cell g d (n - 1) c < cell g d (n - 1) bc" using b(3) sc by simp
  have "n - 1 < n" "bc \<le> n - 1" using n(2) bck k(2) by simp_all
  from trace_back_value [OF gpos anti M k this bck inv, of "[]"]
  obtain cur' bc' new where tb:
    "trace_back M k (n - 1) (row_shift k (n - 1), bc, []) = Some (cur', bc', new)"
    "bc' = 2 ^ 32 - 1 \<or> cur' = 0"
    "sorted_wrt (<) (trace_list cur' new)"
    "set (trace_list cur' new) \<subseteq> {..n - 1}"
    "length (trace_list cur' new) = Suc bc"
    "seq_score g d (trace_list cur' new) = cell g d (n - 1) bc"
    by auto
  have res: "filter_impl sf this_k rel_list n
               = Some \<lparr>score = sc, indices = trace_list cur' new\<rparr>"
    unfolding run tb(1) using tb(2) by (simp add: trace_list_def)
  have "set (trace_list cur' new) \<subseteq> {..<n}" using tb(4) n(2) by auto
  then show ?thesis
    using res tb(3,5,6) sc bck b(1,2,3) unfolding k_def
    by (intro exI [of _ "\<lparr>score = sc, indices = trace_list cur' new\<rparr>"] exI [of _ bc]) simp
qed

lemma trace_back_zero:
  assumes T: "table_upto g d k M (row_shift k n)" and z: "\<forall>r<n. \<forall>c. cell g d r c = 0"
    and k: "1 \<le> k"
  shows "row < n \<Longrightarrow> trace_back M k row (row_shift k row, 0, idx) = Some (0, 0, idx)"
proof (induction row)
  case 0
  then show ?case by simp
next
  case (Suc r)
  have ge: "\<not> row_shift k (Suc r) < Suc r" using row_shift_ge [OF k, of "Suc r"] by simp
  have l0: "0 < row_len k (Suc r)" "0 < row_len k r" using k by (simp_all add: row_len_def)
  have la: "load M (row_shift k (Suc r) + 0) = Some 0"
    using table_upto_load [OF T l0(1)] cell_index_less [OF Suc.prems l0(1)] z Suc.prems by simp
  have "r < n" using Suc.prems by simp
  then have lb: "load M (row_shift k r + 0) = Some 0"
    using table_upto_load [OF T l0(2)] cell_index_less [OF _ l0(2), of n] z \<open>r < n\<close> by simp
  show ?case
    using ge la lb Suc.IH Suc.prems by (simp add: prev_row_shift [OF k] Let_def)
qed

subsection \<open>The exact filter: the claims\<close>

lemma min_le_left: "min (k :: nat) n \<le> k"
  by simp

lemma in_range_small:
  assumes "in_range sf this_k n"
  shows "min this_k n < 2 ^ 16"
proof (rule ccontr)
  define k where "k = min this_k n"
  define p where "p = (k - 1) * k"
  have a: "p < 2 ^ 31" using assms by (simp add: in_range_def p_def k_def Let_def)
  assume "\<not> min this_k n < 2 ^ 16"
  then have "65536 \<le> k" unfolding k_def by (simp add: not_less)
  then have "65535 \<le> k - 1" "65536 \<le> k" by simp_all
  then have "65535 * 65536 \<le> p" unfolding p_def by (rule mult_le_mono)
  then show False using a by simp
qed

lemma float32_pow100: "real m \<le> 2 ^ 24 \<Longrightarrow> float32 (real m * 2 ^ 100) = real m * 2 ^ 100"
proof -
  assume "real m \<le> 2 ^ 24"
  then have "m \<le> 2 ^ 24" by (metis of_nat_le_iff of_nat_numeral of_nat_power)
  then have m: "\<bar>int m\<bar> \<le> 2 ^ 24" by simp
  have p: "2 powr real_of_int 100 = (2 :: real) ^ 100" by simp
  have "float32 (real_of_int (int m) * 2 powr real_of_int 100)
          = real_of_int (int m) * 2 powr real_of_int 100"
    by (rule float32_of_int [OF m]) simp
  then show ?thesis unfolding p by simp
qed

lemma discounts_le_1: "discounts sf c \<le> 1"
proof -
  have "discounts sf c \<le> discounts sf 0" by (rule discounts_antimono) simp
  also have "discounts sf 0 = 1"
    by (cases "metric_of sf") (simp_all add: discounts_def discount_at_def float64_1 float32_1)
  finally show ?thesis .
qed

text \<open>
  With gains between 0 and \<open>2 ^ 100\<close> and discounts between 0 and 1 no cell of the first
  \<open>2 ^ 24\<close> columns is beyond \<open>(c + 1) * 2 ^ 100\<close>, which is far below the largest \<open>float\<close>
  (about \<open>2 ^ 128\<close>): no operation of the table overflows.
\<close>

lemma cell_le:
  assumes g: "\<forall>i\<le>r. 0 \<le> g i \<and> g i \<le> 2 ^ 100" and d: "\<forall>c. 0 \<le> d c \<and> d c \<le> 1"
  shows "real (Suc c) \<le> 2 ^ 24 \<Longrightarrow> cell g d r c \<le> real (Suc c) * 2 ^ 100"
  using g
proof (induction r arbitrary: c)
  case 0
  have "g 0 * d 0 \<le> 2 ^ 100 * 1" using "0.prems" d by (intro mult_mono) simp_all
  then have "float32 (g 0 * d 0) \<le> float32 (real 1 * 2 ^ 100)" by (intro float32_mono) simp
  also have "\<dots> = real 1 * 2 ^ 100" by (rule float32_pow100) simp
  finally show ?case by simp
next
  case (Suc r)
  have t: "float32 (g (Suc r) * d c') \<le> 2 ^ 100" for c'
  proof -
    have "g (Suc r) * d c' \<le> 2 ^ 100 * 1" using Suc.prems d by (intro mult_mono) simp_all
    then have "float32 (g (Suc r) * d c') \<le> float32 (real 1 * 2 ^ 100)"
      by (intro float32_mono) simp
    also have "\<dots> = real 1 * 2 ^ 100" by (rule float32_pow100) simp
    finally show ?thesis by simp
  qed
  have IH: "real (Suc c') \<le> 2 ^ 24 \<Longrightarrow> cell g d r c' \<le> real (Suc c') * 2 ^ 100" for c'
    using Suc.IH [of c'] Suc.prems by simp
  have one: "(2 :: real) ^ 100 \<le> real (Suc c) * 2 ^ 100" by simp
  have step: "float32 (cell g d r (c - 1) + float32 (g (Suc r) * d c)) \<le> real (Suc c) * 2 ^ 100"
    if "0 < c"
  proof -
    have "real (Suc (c - 1)) \<le> 2 ^ 24" using Suc.prems(1) that by simp
    then have "cell g d r (c - 1) \<le> real (Suc (c - 1)) * 2 ^ 100" by (rule IH)
    then have "cell g d r (c - 1) + float32 (g (Suc r) * d c) \<le> real c * 2 ^ 100 + 2 ^ 100"
      using t [of c] that by simp
    also have "\<dots> = real (Suc c) * 2 ^ 100" by (simp add: algebra_simps)
    finally have "float32 (cell g d r (c - 1) + float32 (g (Suc r) * d c))
                    \<le> float32 (real (Suc c) * 2 ^ 100)" by (rule float32_mono)
    also have "\<dots> = real (Suc c) * 2 ^ 100" using Suc.prems(1) by (rule float32_pow100)
    finally show ?thesis .
  qed
  show ?case
  proof (cases "c = 0")
    case True
    have "cell g d r 0 \<le> real (Suc 0) * 2 ^ 100" by (rule IH) simp
    then show ?thesis using t [of 0] True by (simp add: cell.simps(2))
  next
    case False
    then have c: "0 < c" by simp
    show ?thesis using step [OF c] IH [OF Suc.prems(1)] c by (simp add: cell.simps(2))
  qed
qed

text \<open>
  Claim C1, as it holds of the rounded computation. For a list of \<open>n \<ge> 1\<close> relevances whose
  gains lie between 0 and \<open>2 ^ 100\<close>, \<open>k \<ge> 1\<close> and sizes that fit (\<open>in_range\<close>),
  \<open>FilterSpirin\<close> returns a solution whose indices are strictly increasing, lie in the list
  and are at most \<open>min k n\<close> many. Its score is the \<open>float\<close> score of its indices
  (\<open>seq_score\<close>: the products of gain and discount are added in the order of the positions,
  every product and every sum rounded), and no strictly increasing index sequence of length at
  most \<open>min k n\<close> has a larger \<open>float\<close> score. The score is at most \<open>min k n * 2 ^ 100\<close>, so
  that nothing has overflowed.
\<close>

theorem filter_optimal:
  assumes "n = length rel_list" "1 \<le> n" "1 \<le> k" "in_range sf k n"
    and "\<forall>r\<in>set rel_list. 0 \<le> r \<and> gain_factor sf r \<le> 2 ^ 100"
  shows "\<exists>sol. FilterSpirin k sf rel_list n = Some sol
           \<and> sorted_wrt (<) (indices sol) \<and> set (indices sol) \<subseteq> {..<n}
           \<and> length (indices sol) \<le> min k n
           \<and> score sol = seq_score (gains sf rel_list) (discounts sf) (indices sol)
           \<and> (\<forall>S. sorted_wrt (<) S \<and> set S \<subseteq> {..<n} \<and> length S \<le> min k n \<longrightarrow>
                 seq_score (gains sf rel_list) (discounts sf) S \<le> score sol)
           \<and> score sol \<le> real (min k n) * 2 ^ 100"
proof -
  let ?g = "gains sf rel_list" and ?d = "discounts sf"
  have nonneg: "\<forall>r\<in>set rel_list. 0 \<le> r" using assms(5) by simp
  from filter_impl_optimal [OF assms(1-4) nonneg]
  obtain sol bc where sol: "filter_impl sf k rel_list n = Some sol" "bc < min k n"
    "length (indices sol) = Suc bc" "sorted_wrt (<) (indices sol)"
    "set (indices sol) \<subseteq> {..<n}" "score sol = seq_score ?g ?d (indices sol)"
    "0 \<le> score sol" "\<forall>c<min k n. cell ?g ?d (n - 1) c \<le> score sol"
    "score sol = cell ?g ?d (n - 1) bc"
    by blast
  have best: "seq_score ?g ?d S \<le> score sol"
    if S: "sorted_wrt (<) S" "set S \<subseteq> {..<n}" "length S \<le> min k n" for S
  proof (cases S)
    case Nil
    then show ?thesis using sol(7) by (simp add: seq_score_Nil)
  next
    case (Cons x xs)
    then have l: "length S = Suc (length xs)" by simp
    have "set S \<subseteq> {..n - 1}" using S(2) by auto
    then have "seq_score ?g ?d S \<le> cell ?g ?d (n - 1) (length xs)"
      using cell_upper [OF S(1) _ l] by simp
    also have "\<dots> \<le> score sol" using sol(8) S(3) l by simp
    finally show ?thesis .
  qed
  have gb: "\<forall>i\<le>n - 1. 0 \<le> ?g i \<and> ?g i \<le> 2 ^ 100"
  proof (intro allI impI)
    fix i assume "i \<le> n - 1"
    then have "rel_list ! i \<in> set rel_list" using assms(1,2) by simp
    then show "0 \<le> ?g i \<and> ?g i \<le> 2 ^ 100"
      using assms(5) by (simp add: gains_def gain_factor_nonneg)
  qed
  have db: "\<forall>c. 0 \<le> ?d c \<and> ?d c \<le> 1" by (simp add: discounts_nonneg discounts_le_1)
  have "Suc bc \<le> min k n" using sol(2) by simp
  then have sb: "real (Suc bc) \<le> real (min k n)" by (simp only: of_nat_le_iff)
  moreover have "real (min k n) \<le> 2 ^ 24"
  proof -
    have "min k n < 2 ^ 16" using in_range_small [OF assms(4)] .
    then have "real (min k n) < 2 ^ 16" by (metis of_nat_less_iff of_nat_numeral of_nat_power)
    then show ?thesis by simp
  qed
  ultimately have "real (Suc bc) \<le> 2 ^ 24" by (rule order_trans)
  then have "cell ?g ?d (n - 1) bc \<le> real (Suc bc) * 2 ^ 100"
    by (rule cell_le [OF gb db])
  also have "\<dots> \<le> real (min k n) * 2 ^ 100"
    using sb by (intro mult_right_mono) simp_all
  finally have bound: "score sol \<le> real (min k n) * 2 ^ 100" using sol(9) by simp
  show ?thesis
    using sol(1-6) best bound
    by (intro exI [of _ sol]) (simp add: FilterSpirin_def)
qed

theorem filter_optimal_witness:
  "FilterSpirin 3 \<lparr>metric_of = DCGlz, max_position = 3\<rparr> [1, 2, 3, 4, 5] 5
     = Some \<lparr>score = 6990507 / 1048576, indices = [2, 3, 4]\<rparr>
   \<and> seq_score (gains \<lparr>metric_of = DCGlz, max_position = 3\<rparr> [1, 2, 3, 4, 5])
        (discounts \<lparr>metric_of = DCGlz, max_position = 3\<rparr>) [0, 4] \<le> 6990507 / 1048576"
proof -
  let ?sf = "\<lparr>metric_of = DCGlz, max_position = 3\<rparr>"
  have e: "FilterSpirin 3 ?sf [1, 2, 3, 4, 5] 5
             = Some \<lparr>score = 6990507 / 1048576, indices = [2, 3, 4]\<rparr>"
    by (simp add: filter_eval rounded cong: bind_weak_cong let_weak_cong)
  have r: "in_range ?sf 3 5" by (simp add: in_range_def)
  have g: "\<forall>r\<in>set [1, 2, 3, 4, 5]. 0 \<le> r \<and> gain_factor ?sf r \<le> 2 ^ 100"
    by (simp add: gain_factor_def)
  from filter_optimal [of 5 "[1, 2, 3, 4, 5]" 3 ?sf, OF _ _ _ r g]
  obtain sol where sol: "FilterSpirin 3 ?sf [1, 2, 3, 4, 5] 5 = Some sol"
    "\<forall>S. sorted_wrt (<) S \<and> set S \<subseteq> {..<5} \<and> length S \<le> min 3 5 \<longrightarrow>
       seq_score (gains ?sf [1, 2, 3, 4, 5]) (discounts ?sf) S \<le> score sol"
    by auto
  have "sol = \<lparr>score = 6990507 / 1048576, indices = [2, 3, 4]\<rparr>" using sol(1) e by simp
  then show ?thesis using e sol(2) [rule_format, of "[0, 4]"] by simp
qed

text \<open>
  The sum of the exact products is another quantity: on the relevances 16777216, 1 with
  \<open>k = 2\<close> under DCGlz the filter returns the index 0 alone with score 16777216, and the
  strictly increasing sequence 0, 1 has the larger exact sum \<open>16777216 + 1 / 2\<close> (which no
  \<open>float\<close> holds).
\<close>

theorem filter_optimal_counterexample:
  "FilterSpirin 2 \<lparr>metric_of = DCGlz, max_position = 2\<rparr> [16777216, 1] 2
     = Some \<lparr>score = 16777216, indices = [0]\<rparr>
   \<and> (\<Sum>i<length [0, 1 :: nat]. gain_factor \<lparr>metric_of = DCGlz, max_position = 2\<rparr>
          ([16777216, 1] ! ([0, 1] ! i)) * discount_at DCGlz (i + 1)) = 33554433 / 2
   \<and> (16777216 :: real) < 33554433 / 2"
proof (intro conjI)
  show "FilterSpirin 2 \<lparr>metric_of = DCGlz, max_position = 2\<rparr> [16777216, 1] 2
     = Some \<lparr>score = 16777216, indices = [0]\<rparr>"
    by (simp add: filter_eval rounded cong: bind_weak_cong let_weak_cong)
  show "(\<Sum>i<length [0, 1 :: nat]. gain_factor \<lparr>metric_of = DCGlz, max_position = 2\<rparr>
          ([16777216, 1] ! ([0, 1] ! i)) * discount_at DCGlz (i + 1)) = 33554433 / 2"
    by (simp add: gain_factor_def discount_at_def lessThan_Suc rounded)
  show "(16777216 :: real) < 33554433 / 2" by simp
qed

text \<open>
  Claim C5. Every solution \<open>filter_impl\<close> returns, for any list, any \<open>n\<close> and any \<open>k\<close>,
  has strictly increasing indices, at most \<open>k\<close> of them, all below \<open>n\<close>; and the filter
  does return a solution whenever the sizes fit.
\<close>

theorem filter_solution_increasing:
  "(filter_impl sf k rel_list n = Some sol \<longrightarrow>
      sorted_wrt (<) (indices sol) \<and> length (indices sol) \<le> k \<and> set (indices sol) \<subseteq> {..<n})
   \<and> (n = length rel_list \<and> in_range sf k n \<longrightarrow> (\<exists>s. filter_impl sf k rel_list n = Some s))"
proof (rule conjI; rule impI)
  assume "filter_impl sf k rel_list n = Some sol"
  from filter_impl_shape [OF this]
  show "sorted_wrt (<) (indices sol) \<and> length (indices sol) \<le> k \<and> set (indices sol) \<subseteq> {..<n}"
    by simp
next
  assume "n = length rel_list \<and> in_range sf k n"
  then show "\<exists>s. filter_impl sf k rel_list n = Some s"
    by (elim conjE) (rule filter_impl_returns)
qed

theorem filter_solution_increasing_witness:
  "filter_impl \<lparr>metric_of = DCGlz, max_position = 3\<rparr> 3 [5, 4, 3, 2, 1] 5
     = Some \<lparr>score = 8, indices = [0, 1, 2]\<rparr>
   \<and> sorted_wrt (<) [0, 1, 2 :: nat] \<and> length [0, 1, 2 :: nat] \<le> 3
   \<and> (\<exists>s. filter_impl \<lparr>metric_of = DCG, max_position = 2\<rparr> 2 [1, 0, 2] 3 = Some s)"
proof -
  have e: "filter_impl \<lparr>metric_of = DCGlz, max_position = 3\<rparr> 3 [5, 4, 3, 2, 1] 5
     = Some \<lparr>score = 8, indices = [0, 1, 2]\<rparr>"
    by (simp add: filter_eval rounded cong: bind_weak_cong let_weak_cong)
  have r: "in_range \<lparr>metric_of = DCG, max_position = 2\<rparr> 2 3" by (simp add: in_range_def)
  have "\<exists>s. filter_impl \<lparr>metric_of = DCG, max_position = 2\<rparr> 2 [1, 0, 2] 3 = Some s"
    using filter_solution_increasing [of "\<lparr>metric_of = DCG, max_position = 2\<rparr>" 2 "[1, 0, 2]" 3] r
    by simp
  moreover have "sorted_wrt (<) [0, 1, 2 :: nat] \<and> length [0, 1, 2 :: nat] \<le> 3"
    using filter_solution_increasing [of "\<lparr>metric_of = DCGlz, max_position = 3\<rparr>" 3
        "[5, 4, 3, 2, 1]" 5 "\<lparr>score = 8, indices = [0, 1, 2]\<rparr>"] e
    by simp
  ultimately show ?thesis using e by blast
qed

text \<open>
  Claim C6. The column the filter selects in the last row of the table (the \<open>float\<close> values
  the loops have stored) is the smallest one that holds the maximal score: every column of
  the row is at most the score, every smaller column is strictly below it, and the solution
  has one index more than the column number, so that no strictly increasing sequence with
  the same \<open>float\<close> score is shorter than the solution. On the relevances 3, 0, 0, 3 with
  \<open>k = 1\<close> under DCG the filter returns the index 0 alone, with score 7.
\<close>

theorem filter_tie_break:
  assumes "n = length rel_list" "1 \<le> n" "1 \<le> k" "in_range sf k n"
    and "\<forall>r\<in>set rel_list. 0 \<le> r \<and> gain_factor sf r \<le> 2 ^ 100"
  shows "(\<exists>sol bc. FilterSpirin k sf rel_list n = Some sol \<and> bc < min k n
            \<and> length (indices sol) = Suc bc
            \<and> score sol = cell (gains sf rel_list) (discounts sf) (n - 1) bc
            \<and> (\<forall>c<min k n. cell (gains sf rel_list) (discounts sf) (n - 1) c \<le> score sol)
            \<and> (\<forall>c<bc. cell (gains sf rel_list) (discounts sf) (n - 1) c < score sol)
            \<and> (\<forall>S. sorted_wrt (<) S \<and> set S \<subseteq> {..<n} \<and> S \<noteq> [] \<and> length S \<le> min k n
                  \<and> seq_score (gains sf rel_list) (discounts sf) S = score sol
                  \<longrightarrow> length (indices sol) \<le> length S))
         \<and> FilterSpirin 1 \<lparr>metric_of = DCG, max_position = 1\<rparr> [3, 0, 0, 3] 4
             = Some \<lparr>score = 7, indices = [0]\<rparr>"
proof
  let ?g = "gains sf rel_list" and ?d = "discounts sf"
  have nonneg: "\<forall>r\<in>set rel_list. 0 \<le> r" using assms(5) by simp
  from filter_impl_optimal [OF assms(1-4) nonneg]
  obtain sol bc where sol: "filter_impl sf k rel_list n = Some sol" "bc < min k n"
    "length (indices sol) = Suc bc" "score sol = cell ?g ?d (n - 1) bc"
    "\<forall>c<min k n. cell ?g ?d (n - 1) c \<le> score sol"
    "\<forall>c<bc. cell ?g ?d (n - 1) c < score sol"
    by blast
  have short: "length (indices sol) \<le> length S"
    if S: "sorted_wrt (<) S" "set S \<subseteq> {..<n}" "S \<noteq> []"
      "seq_score ?g ?d S = score sol" for S
  proof (rule ccontr)
    assume "\<not> length (indices sol) \<le> length S"
    then obtain c where c: "length S = Suc c" "c < bc"
      using S(3) sol(3) by (cases S) auto
    have "set S \<subseteq> {..n - 1}" using S(2) by auto
    then have "seq_score ?g ?d S \<le> cell ?g ?d (n - 1) c"
      using cell_upper [OF S(1) _ c(1)] by simp
    then show False using sol(6) c(2) S(4) by force
  qed
  show "\<exists>sol bc. FilterSpirin k sf rel_list n = Some sol \<and> bc < min k n
            \<and> length (indices sol) = Suc bc
            \<and> score sol = cell ?g ?d (n - 1) bc
            \<and> (\<forall>c<min k n. cell ?g ?d (n - 1) c \<le> score sol)
            \<and> (\<forall>c<bc. cell ?g ?d (n - 1) c < score sol)
            \<and> (\<forall>S. sorted_wrt (<) S \<and> set S \<subseteq> {..<n} \<and> S \<noteq> [] \<and> length S \<le> min k n
                  \<and> seq_score ?g ?d S = score sol
                  \<longrightarrow> length (indices sol) \<le> length S)"
    using sol short
    by (intro exI [of _ sol] exI [of _ bc]) (simp add: FilterSpirin_def)
next
  show "FilterSpirin 1 \<lparr>metric_of = DCG, max_position = 1\<rparr> [3, 0, 0, 3] 4
          = Some \<lparr>score = 7, indices = [0]\<rparr>"
    by (simp add: filter_eval rounded cong: bind_weak_cong let_weak_cong)
qed

text \<open>
  On the relevances 7, 3, 7, 4 with \<open>k = 4\<close> under DCGlz the exact scores of the columns 2
  and 3 of the last row are both \<open>71 / 6\<close>; the stored values are \<open>12408149 / 1048576\<close> and
  the larger \<open>6204075 / 524288\<close>, and the filter returns all four indices.
\<close>

theorem filter_tie_break_witness:
  "FilterSpirin 4 \<lparr>metric_of = DCGlz, max_position = 4\<rparr> [7, 3, 7, 4] 4
      = Some \<lparr>score = 6204075 / 524288, indices = [0, 1, 2, 3]\<rparr>
   \<and> (\<exists>bc. length [0, 1, 2, 3 :: nat] = Suc bc
         \<and> 6204075 / 524288 = cell (gains \<lparr>metric_of = DCGlz, max_position = 4\<rparr> [7, 3, 7, 4])
                       (discounts \<lparr>metric_of = DCGlz, max_position = 4\<rparr>) 3 bc)
   \<and> cell (gains \<lparr>metric_of = DCGlz, max_position = 4\<rparr> [7, 3, 7, 4])
           (discounts \<lparr>metric_of = DCGlz, max_position = 4\<rparr>) 3 2 < 6204075 / 524288
   \<and> FilterSpirin 2 \<lparr>metric_of = DCGlz, max_position = 2\<rparr> [4, 0, 0] 3
      = Some \<lparr>score = 4, indices = [0]\<rparr>"
proof -
  let ?sf = "\<lparr>metric_of = DCGlz, max_position = 4\<rparr>"
  have e: "FilterSpirin 4 ?sf [7, 3, 7, 4] 4
             = Some \<lparr>score = 6204075 / 524288, indices = [0, 1, 2, 3]\<rparr>"
    by (simp add: filter_eval rounded cong: bind_weak_cong let_weak_cong)
  have e': "FilterSpirin 2 \<lparr>metric_of = DCGlz, max_position = 2\<rparr> [4, 0, 0] 3
      = Some \<lparr>score = 4, indices = [0]\<rparr>"
    by (simp add: filter_eval rounded cong: bind_weak_cong let_weak_cong)
  have r: "in_range ?sf 4 4" by (simp add: in_range_def)
  have g: "\<forall>r\<in>set [7, 3, 7, 4]. 0 \<le> r \<and> gain_factor ?sf r \<le> 2 ^ 100"
    by (simp add: gain_factor_def)
  from filter_tie_break [of 4 "[7, 3, 7, 4]" 4 ?sf, OF _ _ _ r g]
  obtain sol bc where sol: "FilterSpirin 4 ?sf [7, 3, 7, 4] 4 = Some sol" "bc < 4"
    "length (indices sol) = Suc bc"
    "score sol = cell (gains ?sf [7, 3, 7, 4]) (discounts ?sf) 3 bc"
    "\<forall>c<bc. cell (gains ?sf [7, 3, 7, 4]) (discounts ?sf) 3 c < score sol"
    by auto
  have s: "sol = \<lparr>score = 6204075 / 524288, indices = [0, 1, 2, 3]\<rparr>" using sol(1) e by simp
  then have bc: "bc = 3" using sol(3) by simp
  have "cell (gains ?sf [7, 3, 7, 4]) (discounts ?sf) 3 2 < 6204075 / 524288"
    using sol(5) s bc by simp
  moreover have "\<exists>bc. length [0, 1, 2, 3 :: nat] = Suc bc
         \<and> 6204075 / 524288 = cell (gains ?sf [7, 3, 7, 4]) (discounts ?sf) 3 bc"
    using sol(4) s bc by (intro exI [of _ 3]) simp
  ultimately show ?thesis using e e' by blast
qed

lemma filter_impl_zero:
  assumes n: "n = length rel_list" "1 \<le> n" and tk: "1 \<le> this_k"
    and fit: "in_range sf this_k n" and zero: "\<forall>r\<in>set rel_list. r = 0"
  shows "filter_impl sf this_k rel_list n = Some \<lparr>score = 0, indices = [0]\<rparr>"
proof -
  let ?g = "gains sf rel_list" and ?d = "discounts sf"
  define k where "k = min this_k n"
  have k: "1 \<le> k" "k \<le> n" using n(2) tk by (simp_all add: k_def)
  obtain M sc bc where M: "table_upto ?g ?d k M (row_shift k n)"
    and best: "best_inv (cell ?g ?d (n - 1)) k (sc, bc)"
    and run: "filter_impl sf this_k rel_list n =
               trace_back M k (n - 1) (row_shift k (n - 1), bc, []) \<bind>
               (\<lambda>(cur, bc', idx).
                  if bc' = 2 ^ 32 - 1 \<or> cur = 0
                  then Some \<lparr>score = sc, indices = rev (if cur = 0 then idx @ [0] else idx)\<rparr>
                  else None)"
    using filter_impl_run [OF n tk fit] unfolding k_def by blast
  have g0: "\<forall>i<n. ?g i = 0"
  proof (intro allI impI)
    fix i assume "i < n"
    then have "rel_list ! i = 0" using zero n(1) by simp
    then show "?g i = 0" by (simp add: gains_def gain_factor_zero)
  qed

  have z: "\<forall>r<n. \<forall>c. cell ?g ?d r c = 0"
    using g0 by (auto intro!: cell_zero)
  have zl: "cell ?g ?d (n - 1) = (\<lambda>c. 0)" using z n(2) by (intro ext) simp
  have "sc = 0 \<and> bc = 0" using best unfolding zl by (auto simp: best_inv_def)
  then have sc: "sc = 0" and bc: "bc = 0" by simp_all
  have "n - 1 < n" using n(2) by simp
  from trace_back_zero [OF M z k(1) this, of "[]"]
  have "trace_back M k (n - 1) (row_shift k (n - 1), 0, []) = Some (0, 0, [])" .
  then show ?thesis unfolding run bc sc by simp
qed

text \<open>
  Claim C10. For \<open>n \<ge> 1\<close> and \<open>k \<ge> 1\<close> a solution the filter returns is never empty, and the
  filter returns one when the sizes fit; on a list of zeros it returns the single index 0 with
  score 0.
\<close>

theorem filter_never_empty:
  "(filter_impl sf k rel_list n = Some sol \<and> 1 \<le> n \<and> 1 \<le> k \<longrightarrow> indices sol \<noteq> [])
   \<and> (n = length rel_list \<and> 1 \<le> n \<and> 1 \<le> k \<and> in_range sf k n
        \<longrightarrow> (\<exists>s. filter_impl sf k rel_list n = Some s \<and> indices s \<noteq> []))
   \<and> (n = length rel_list \<and> 1 \<le> n \<and> 1 \<le> k \<and> in_range sf k n \<and> (\<forall>r\<in>set rel_list. r = 0)
        \<longrightarrow> filter_impl sf k rel_list n = Some \<lparr>score = 0, indices = [0]\<rparr>)"
proof (intro conjI impI)
  assume "filter_impl sf k rel_list n = Some sol \<and> 1 \<le> n \<and> 1 \<le> k"
  then show "indices sol \<noteq> []" using filter_impl_shape [of sf k rel_list n sol] by simp
next
  assume a: "n = length rel_list \<and> 1 \<le> n \<and> 1 \<le> k \<and> in_range sf k n"
  then obtain s where s: "filter_impl sf k rel_list n = Some s"
    using filter_impl_returns [of n rel_list sf k] by blast
  then have "indices s \<noteq> []" using filter_impl_shape [of sf k rel_list n s] a by simp
  then show "\<exists>s. filter_impl sf k rel_list n = Some s \<and> indices s \<noteq> []" using s by blast
next
  assume "n = length rel_list \<and> 1 \<le> n \<and> 1 \<le> k \<and> in_range sf k n \<and> (\<forall>r\<in>set rel_list. r = 0)"
  then show "filter_impl sf k rel_list n = Some \<lparr>score = 0, indices = [0]\<rparr>"
    by (elim conjE) (rule filter_impl_zero)
qed

theorem filter_never_empty_witness:
  "filter_impl \<lparr>metric_of = DCG, max_position = 2\<rparr> 2 [0, 0, 0] 3 = Some \<lparr>score = 0, indices = [0]\<rparr>
   \<and> (\<exists>s. filter_impl \<lparr>metric_of = DCG, max_position = 2\<rparr> 2 [0, 2, 1] 3 = Some s \<and> indices s \<noteq> [])
   \<and> indices \<lparr>score = 0, indices = [0::nat]\<rparr> \<noteq> []"
proof -
  let ?sf = "\<lparr>metric_of = DCG, max_position = 2\<rparr>"
  have r: "in_range ?sf 2 3" by (simp add: in_range_def)
  have e: "filter_impl ?sf 2 [0, 0, 0] 3 = Some \<lparr>score = 0, indices = [0]\<rparr>"
    using filter_never_empty [of ?sf 2 "[0, 0, 0]" 3 "\<lparr>score = 0, indices = [0]\<rparr>"] r by simp
  have "\<exists>s. filter_impl ?sf 2 [0, 2, 1] 3 = Some s \<and> indices s \<noteq> []"
    using filter_never_empty [of ?sf 2 "[0, 2, 1]" 3 "\<lparr>score = 0, indices = [0]\<rparr>"] r by simp
  moreover have "indices \<lparr>score = 0, indices = [0::nat]\<rparr> \<noteq> []"
    using filter_never_empty [of ?sf 2 "[0, 0, 0]" 3 "\<lparr>score = 0, indices = [0]\<rparr>"] e by simp
  ultimately show ?thesis using e by blast
qed

subsection \<open>The allocation of the table in 32-bit arithmetic\<close>

lemma bind_eq_NoneI: "(\<And>v. m = Some v \<Longrightarrow> f v = None) \<Longrightarrow> m \<bind> f = None"
  by (cases m) auto

lemma first_cell_out_of_bounds:
  "length M \<le> curr_row_shift \<Longrightarrow> first_cell buffer n prev_row_shift curr_row_shift row M = None"
  unfolding first_cell_def
  by (intro bind_eq_NoneI) (simp add: store_def)

lemma triangular_row_out_of_bounds:
  "length M \<le> prev_row_shift + row \<Longrightarrow>
     triangular_row buffer n row (prev_row_shift, curr_row_shift, M) = None"
  by (simp add: triangular_row_def Let_def first_cell_out_of_bounds)

lemma filter_impl_overflow:
  assumes k: "2 \<le> min this_k n" and cells: "M_cells (min this_k n) n = Some m" and m: "m \<le> 1"
  shows "filter_impl sf this_k rel_list n = None"
proof -
  have nz: "\<not> (n = 0 \<or> this_k = 0)" using k by auto
  have kk: "(if n < this_k then n else this_k) = min this_k n" by auto
  have up: "[1..<min this_k n] = 1 # [Suc 1..<min this_k n]" using k by (intro upt_conv_Cons) simp
  have loop: "for_each [1..<min this_k n] (triangular_row B n) (0, 0, M) = None"
    if "length M = m" for B M
    unfolding up using that m by (simp add: triangular_row_out_of_bounds)
  have len: "length M = m" if "store (new_array m) 0 v = Some M" for M and v :: real
    using that by (auto simp: store_def new_array_def split: if_splits)
  show ?thesis
    unfolding filter_impl_def
    apply (simp only: nz if_False kk Let_def cells Option.bind.simps)
    apply (intro bind_eq_NoneI)
    apply (simp only: loop [OF len] option.distinct)
    done
qed

text \<open>
  Claim C9. The number of cells is computed in 32-bit arithmetic while the rows are addressed
  with wider offsets. For \<open>k = 2\<close> and a list of \<open>2147483649\<close> relevances the table has
  \<open>4294967297\<close> cells, the allocation has one cell, and the first store of row 1 is out of
  bounds. (For sizes that fit, \<open>allocated_cells\<close>, \<open>filter_impl_run\<close> and
  \<open>filter_impl_returns\<close> above show that the allocation has exactly the cells of the
  table and that every access is in bounds and reads a written cell.)
\<close>

theorem dp_array_overflow:
  "M_cells 2 2147483649 = Some 1 \<and> row_shift 2 2147483649 = 4294967297
   \<and> filter_impl \<lparr>metric_of = DCGlz, max_position = 2\<rparr> 2 (replicate 2147483649 1) 2147483649 = None"
proof (intro conjI)
  show c: "M_cells 2 2147483649 = Some 1" by (simp add: M_cells_def)
  have "2 * row_shift 2 (2 + 2147483647) = 2 * (2 + 1) + 2 * (2 * 2147483647)"
    by (rule row_shift_rectangle)
  then show "row_shift 2 2147483649 = 4294967297" by simp
  show "filter_impl \<lparr>metric_of = DCGlz, max_position = 2\<rparr> 2 (replicate 2147483649 1) 2147483649 = None"
    by (rule filter_impl_overflow [where m = 1]) (simp_all add: c)
qed

subsection \<open>The binary heap\<close>

lemma length_percolate_down: "length (percolate_down cmp h pos) = length h"
proof (induction cmp h pos rule: percolate_down.induct)
  case (1 cmp heap pos)
  show ?case
    using 1 by (subst percolate_down.simps) (simp add: Let_def)
qed

lemma mset_percolate_down: "mset (percolate_down cmp h pos) = mset h"
proof (induction cmp h pos rule: percolate_down.induct)
  case (1 cmp heap pos)
  show ?case
  proof (cases "length heap \<le> left pos \<or> smallest_of cmp heap pos = pos")
    case True
    then show ?thesis by (subst percolate_down.simps) (auto simp: Let_def)
  next
    case False
    let ?x = "smallest_of cmp heap pos"
    have x: "pos < ?x" "?x < length heap"
      using False smallest_of_greater [of cmp heap pos] smallest_of_less [of pos heap cmp]
      by simp_all
    have "mset (percolate_down cmp heap pos)
            = mset (heap[pos := heap ! ?x, ?x := heap ! pos])"
      using False 1 by (subst percolate_down.simps) (simp add: Let_def)
    also have "\<dots> = mset heap" using x by (simp add: mset_swap)
    finally show ?thesis .
  qed
qed

lemma parent_left: "parent (left p) = p" "parent (left p + 1) = p" "parent (Suc (left p)) = p"
  by (simp_all add: parent_def left_def)

lemma parent_eq: "0 < i \<Longrightarrow> parent i = p \<longleftrightarrow> i = left p \<or> i = left p + 1"
  by (auto simp: parent_def left_def)

lemma parent_less: "0 < i \<Longrightarrow> parent i < i"
  by (simp add: parent_def)

lemma parent_mono: "i \<le> j \<Longrightarrow> parent i \<le> parent j"
  by (simp add: parent_def div_le_mono)

lemma smallest_of_min:
  assumes "left pos < length h"
  shows "key (h ! smallest_of (\<lambda>a b. key a < key b) h pos) \<le> (key (h ! pos) :: real)"
    and "key (h ! smallest_of (\<lambda>a b. key a < key b) h pos) \<le> key (h ! left pos)"
    and "left pos + 1 < length h \<Longrightarrow>
           key (h ! smallest_of (\<lambda>a b. key a < key b) h pos) \<le> key (h ! (left pos + 1))"
  by (auto simp: smallest_of_def Let_def)

lemma percolate_down_heap_aux:
  "cmp = (\<lambda>a b. key a < key b) \<Longrightarrow>
   (\<forall>i<length h. 0 < i \<longrightarrow> s \<le> parent i \<longrightarrow> parent i \<noteq> pos
        \<longrightarrow> key (h ! parent i) \<le> key (h ! i)) \<Longrightarrow>
   (0 < pos \<longrightarrow> s \<le> parent pos \<longrightarrow>
      (\<forall>c<length h. 0 < c \<longrightarrow> parent c = pos \<longrightarrow> key (h ! parent pos) \<le> key (h ! c))) \<Longrightarrow>
   heap_from key s (percolate_down cmp h pos)"
proof (induction cmp h pos rule: percolate_down.induct)
  case (1 cmp heap pos)
  note c = "1.prems"(1) and A = "1.prems"(2) and B = "1.prems"(3)
  let ?x = "smallest_of cmp heap pos"
  show ?case
  proof (cases "length heap \<le> left pos")
    case True
    have "percolate_down cmp heap pos = heap"
      using True by (subst percolate_down.simps) simp
    moreover have "heap_from key s heap"
      unfolding heap_from_def
    proof (intro allI impI)
      fix i assume i: "i < length heap" "0 < i" "s \<le> parent i"
      have "parent i \<noteq> pos" using True i(1,2) by (auto simp: parent_eq)
      then show "key (heap ! parent i) \<le> key (heap ! i)" using A i by simp
    qed
    ultimately show ?thesis by simp
  next
    case False
    then have l: "left pos < length heap" by simp
    note m = smallest_of_min [OF l, of key, folded c]
    show ?thesis
    proof (cases "?x = pos")
      case True
      have "percolate_down cmp heap pos = heap"
        using True by (subst percolate_down.simps) (simp add: Let_def)
      moreover have "heap_from key s heap"
        unfolding heap_from_def
      proof (intro allI impI)
        fix i assume i: "i < length heap" "0 < i" "s \<le> parent i"
        show "key (heap ! parent i) \<le> key (heap ! i)"
        proof (cases "parent i = pos")
          case False
          then show ?thesis using A i by simp
        next
          case p: True
          then have "i = left pos \<or> i = left pos + 1" using i(2) by (simp add: parent_eq)
          then show ?thesis using m(2,3) i(1) True p by auto
        qed
      qed
      ultimately show ?thesis by simp
    next
      case False
      have x: "pos < ?x" "?x < length heap" "parent ?x = pos" "0 < ?x"
        using False smallest_of_greater [of cmp heap pos] smallest_of_less [OF l, of cmp]
          smallest_of_cases [of cmp heap pos] by (auto simp: parent_left)
      let ?h = "heap[pos := heap ! ?x, ?x := heap ! pos]"
      have pd: "percolate_down cmp heap pos = percolate_down cmp ?h ?x"
        using False l by (subst percolate_down.simps) (simp add: Let_def)
      have nth: "?h ! j = (if j = ?x then heap ! pos else if j = pos then heap ! ?x else heap ! j)"
        if "j < length heap" for j
        using that x by (simp add: nth_list_update)
      have A': "\<forall>i<length ?h. 0 < i \<longrightarrow> s \<le> parent i \<longrightarrow> parent i \<noteq> ?x
                  \<longrightarrow> key (?h ! parent i) \<le> key (?h ! i)"
      proof (intro allI impI)
        fix i assume i: "i < length ?h" "0 < i" "s \<le> parent i" "parent i \<noteq> ?x"
        have il: "i < length heap" "parent i < length heap" "parent i < i"
          using i(1,2) parent_less [of i] by simp_all
        show "key (?h ! parent i) \<le> key (?h ! i)"
        proof (cases "parent i = pos")
          case True
          then have "i = left pos \<or> i = left pos + 1" using i(2) by (simp add: parent_eq)
          then show ?thesis using m il True i(4) x by (auto simp: nth)
        next
          case np: False
          show ?thesis
          proof (cases "i = pos")
            case True
            then have "key (heap ! parent pos) \<le> key (heap ! ?x)"
              using B i(2,3) x by simp
            then show ?thesis using True il np i(4) x by (simp add: nth)
          next
            case False
            have "i \<noteq> ?x" using np x(3) by auto
            then show ?thesis using A il i np False by (simp add: nth)
          qed
        qed
      qed
      have B': "0 < ?x \<longrightarrow> s \<le> parent ?x \<longrightarrow>
                 (\<forall>c<length ?h. 0 < c \<longrightarrow> parent c = ?x \<longrightarrow> key (?h ! parent ?x) \<le> key (?h ! c))"
      proof (intro allI impI)
        fix c assume c: "s \<le> parent ?x" "c < length ?h" "0 < c" "parent c = ?x"
        have "?x < c" using parent_less [OF c(3)] c(4) by simp
        then have ne: "c \<noteq> ?x" "c \<noteq> pos" using x(1) by simp_all
        have "key (heap ! ?x) \<le> key (heap ! c)"
          using A c x by (auto dest: spec [of _ c])
        then show "key (?h ! parent ?x) \<le> key (?h ! c)"
          using ne c(2) x by (simp add: nth)
      qed
      show ?thesis
        unfolding pd using "1.IH" [OF \<open>\<not> length heap \<le> left pos\<close> refl False c A' B'] .
    qed
  qed
qed

lemma percolate_down_heap:
  assumes "\<forall>i<length h. 0 < i \<longrightarrow> s \<le> parent i \<longrightarrow> parent i \<noteq> pos
        \<longrightarrow> key (h ! parent i) \<le> key (h ! i)"
    and "0 < pos \<longrightarrow> s \<le> parent pos \<longrightarrow>
      (\<forall>c<length h. 0 < c \<longrightarrow> parent c = pos \<longrightarrow> key (h ! parent pos) \<le> key (h ! c))"
  shows "heap_from key s (percolate_down (\<lambda>a b. key a < key b) h pos)"
  using percolate_down_heap_aux [OF refl assms] .

lemma heap_from_step:
  assumes "heap_from key (Suc p) h"
  shows "heap_from key p (percolate_down (\<lambda>a b. key a < key b) h p)"
proof (rule percolate_down_heap)
  show "\<forall>i<length h. 0 < i \<longrightarrow> p \<le> parent i \<longrightarrow> parent i \<noteq> p
        \<longrightarrow> key (h ! parent i) \<le> key (h ! i)"
    using assms by (auto simp: heap_from_def)
  show "0 < p \<longrightarrow> p \<le> parent p \<longrightarrow>
      (\<forall>c<length h. 0 < c \<longrightarrow> parent c = p \<longrightarrow> key (h ! parent p) \<le> key (h ! c))"
    using parent_less [of p] by auto
qed

lemma heap_from_top:
  assumes "heap_from key 0 h" "i < length h"
  shows "key (h ! 0) \<le> key (h ! i)"
  using assms(2)
proof (induction i rule: less_induct)
  case (less i)
  show ?case
  proof (cases "i = 0")
    case False
    then have "key (h ! parent i) \<le> key (h ! i)" "parent i < i"
      using assms(1) less.prems parent_less [of i] by (simp_all add: heap_from_def)
    moreover have "key (h ! 0) \<le> key (h ! parent i)"
      using less.IH [of "parent i"] calculation(2) less.prems by simp
    ultimately show ?thesis by simp
  qed simp
qed

lemma heapify_loop:
  assumes "heap_from key (Suc p) h"
  shows "heap_from key (Suc 0) (foldl (percolate_down (\<lambda>a b. key a < key b)) h (rev [1..<Suc p]))"
  using assms
proof (induction p arbitrary: h)
  case 0
  then show ?case by simp
next
  case (Suc p)
  have "rev [1..<Suc (Suc p)] = Suc p # rev [1..<Suc p]" by simp
  then show ?case
    using Suc.IH [OF heap_from_step [OF Suc.prems]] by simp
qed

lemma length_foldl_percolate:
  "length (foldl (percolate_down cmp) h xs) = length h"
  by (induction xs arbitrary: h) (simp_all add: length_percolate_down)

lemma mset_foldl_percolate:
  "mset (foldl (percolate_down cmp) h xs) = mset h"
  by (induction xs arbitrary: h) (simp_all add: mset_percolate_down)

lemma length_heapify: "length (heapify cmp h) = length h"
  by (simp add: heapify_def Let_def length_percolate_down length_foldl_percolate)

lemma mset_heapify: "mset (heapify cmp h) = mset h"
  by (simp add: heapify_def Let_def mset_percolate_down mset_foldl_percolate)

lemma heap_from_heapify: "heap_from key 0 (heapify (\<lambda>a b. key a < key b) h)"
proof (cases "length h \<le> 1")
  case True
  then show ?thesis by (auto simp: heapify_def heap_from_def)
next
  case False
  let ?p = "parent (length h - 1)"
  have "heap_from key (Suc ?p) h"
    unfolding heap_from_def
  proof (intro allI impI)
    fix i assume "i < length h" "0 < i" "Suc ?p \<le> parent i"
    moreover have "parent i \<le> ?p" using calculation(1) by (intro parent_mono) simp
    ultimately show "key (h ! parent i) \<le> key (h ! i)" by simp
  qed
  from heap_from_step [OF heapify_loop [OF this]]
  show ?thesis using False by (simp add: heapify_def Let_def)
qed

lemma replace_heap:
  assumes "heap_from key 0 h" "h \<noteq> []"
  shows "\<exists>h'. replace (\<lambda>a b. key a < key b) h x = Some h' \<and> heap_from key 0 h'
           \<and> length h' = length h \<and> mset h' = mset h - {#h ! 0#} + {#x#}"
proof -
  let ?h = "h[0 := x]"
  have "heap_from key 0 (percolate_down (\<lambda>a b. key a < key b) ?h 0)"
  proof (rule percolate_down_heap)
    show "\<forall>i<length ?h. 0 < i \<longrightarrow> 0 \<le> parent i \<longrightarrow> parent i \<noteq> 0
        \<longrightarrow> key (?h ! parent i) \<le> key (?h ! i)"
      using assms(1) by (auto simp: heap_from_def)
  qed simp
  moreover have "mset ?h = mset h - {#h ! 0#} + {#x#}"
    using assms(2) by (cases h) simp_all
  ultimately show ?thesis
    using assms(2) by (simp add: replace_def length_percolate_down mset_percolate_down)
qed

lemma pop_heap:
  assumes "heap_from key 0 h" "h \<noteq> []"
  shows "\<exists>h'. pop (\<lambda>a b. key a < key b) h = Some h' \<and> heap_from key 0 h'
           \<and> Suc (length h') = length h \<and> mset h' = mset h - {#h ! 0#}"
proof -
  let ?h = "butlast (h[0 := last h])"
  have len: "length ?h = length h - 1" by simp
  have nth: "?h ! i = (if i = 0 then last h else h ! i)" if "i < length h - 1" for i
    using that by (cases h) (auto simp: nth_butlast nth_list_update)
  have "heap_from key 0 (percolate_down (\<lambda>a b. key a < key b) ?h 0)"
  proof (rule percolate_down_heap)
    show "\<forall>i<length ?h. 0 < i \<longrightarrow> 0 \<le> parent i \<longrightarrow> parent i \<noteq> 0
        \<longrightarrow> key (?h ! parent i) \<le> key (?h ! i)"
    proof (intro allI impI)
      fix i assume i: "i < length ?h" "0 < i" "parent i \<noteq> 0"
      then have "parent i < i" "i < length h" "i < length h - 1" using parent_less [of i] by simp_all
      then show "key (?h ! parent i) \<le> key (?h ! i)"
        using assms(1) i by (simp add: nth heap_from_def)
    qed
  qed simp
  moreover have "mset ?h = mset h - {#h ! 0#}"
  proof (cases "length h = 1")
    case True
    then obtain a where "h = [a]" by (cases h) auto
    then show ?thesis by simp
  next
    case False
    then obtain a t where h: "h = a # t" "t \<noteq> []" using assms(2) by (cases h) auto
    then have "mset (butlast (last t # t)) = mset t"
      by (metis append_butlast_last_id butlast.simps(2) mset.simps(2) mset_append union_mset_add_mset_right add.right_neutral mset.simps(1) add_mset_commute union_commute)
    then show ?thesis using h by simp
  qed
  ultimately show ?thesis
    using assms(2) by (simp add: pop_def length_percolate_down mset_percolate_down)
qed

subsection \<open>The k largest values of a list\<close>

lemma topk_unique:
  assumes "topk_of H1 R k" "topk_of H2 R k"
  shows "H1 = H2"
proof (rule ccontr)
  assume ne: "H1 \<noteq> H2"
  have sz: "size H1 = size H2" using assms by (simp add: topk_of_def)
  have sub: "H1 \<subseteq># R" "H2 \<subseteq># R" using assms by (simp_all add: topk_of_def)
  have "\<not> H1 \<subseteq># H2"
    using ne sz by (metis mset_subset_size subset_mset.le_neq_trans less_irrefl)
  then obtain v where v: "count H2 v < count H1 v"
    by (auto simp: subseteq_mset_def not_le)
  have "\<not> H2 \<subseteq># H1"
    using ne sz by (metis mset_subset_size subset_mset.le_neq_trans less_irrefl)
  then obtain w where w: "count H1 w < count H2 w"
    by (auto simp: subseteq_mset_def not_le)
  have vR: "count H1 v \<le> count R v" and wR: "count H2 w \<le> count R w"
    using sub by (simp_all add: mset_subset_eq_count)
  have "v \<in># H1" "v \<in># R - H2" "w \<in># H2" "w \<in># R - H1"
    using v w vR wR by (simp_all add: count_greater_zero_iff [symmetric] del: count_greater_zero_iff)
  then have "w \<le> v" "v \<le> w" using assms by (auto simp: topk_of_def)
  then show False using v w by simp
qed

lemma topk_skip:
  assumes "topk_of H R k" "\<forall>a\<in>#H. x \<le> a"
  shows "topk_of H (R + {#x#}) k"
proof -
  have sub: "H \<subseteq># R" using assms(1) by (simp add: topk_of_def)
  then have "R + {#x#} - H = (R - H) + {#x#}"
    by (simp add: multiset_eq_iff mset_subset_eq_count Suc_diff_le)
  moreover have "H \<subseteq># R + {#x#}" using sub by (auto simp: subseteq_mset_def intro: le_SucI)
  ultimately show ?thesis using assms by (auto simp: topk_of_def)
qed

lemma topk_replace:
  assumes "topk_of H R k" "m \<in># H" "\<forall>a\<in>#H. m \<le> a" "m \<le> x"
  shows "topk_of (H - {#m#} + {#x#}) (R + {#x#}) k"
proof -
  have sub: "H \<subseteq># R" using assms(1) by (simp add: topk_of_def)
  have mR: "m \<in># R" using sub assms(2) by (meson mset_subset_eqD)
  have d: "R + {#x#} - (H - {#m#} + {#x#}) = (R - H) + {#m#}"
  proof (rule multiset_eqI)
    fix a
    have "count H a \<le> count R a" using sub by (simp add: mset_subset_eq_count)
    moreover have "0 < count H m" using assms(2) by simp
    ultimately show "count (R + {#x#} - (H - {#m#} + {#x#})) a = count ((R - H) + {#m#}) a"
      by (cases "a = m") auto
  qed
  have "H - {#m#} + {#x#} \<subseteq># R + {#x#}"
    using sub by (meson diff_subset_eq_self mset_subset_eq_mono_add_right_cancel subset_mset.order_trans)
  moreover have "size (H - {#m#} + {#x#}) = k"
  proof -
    have "H \<noteq> {#}" using assms(2) by auto
    then have "0 < size H" by (simp add: nonempty_has_size)
    then show ?thesis using assms(1,2) by (simp add: topk_of_def size_Diff_singleton)
  qed
  moreover have "\<forall>a\<in>#H - {#m#} + {#x#}. \<forall>y\<in>#R + {#x#} - (H - {#m#} + {#x#}). y \<le> a"
  proof (intro ballI)
    fix a y assume a: "a \<in># H - {#m#} + {#x#}" and y: "y \<in># R + {#x#} - (H - {#m#} + {#x#})"
    have ym: "y \<le> m"
      using y assms(1,2,3) unfolding d by (auto simp: topk_of_def)
    have "m \<le> a" using a assms(3,4) by (auto dest: in_diffD)
    then show "y \<le> a" using ym by simp
  qed
  ultimately show ?thesis by (simp add: topk_of_def)
qed

subsection \<open>The straightforward top-k pruner\<close>

lemma put_Some: "i < length xs \<Longrightarrow> put xs i v = Some (xs[i := v])"
  by (simp add: put_def)

lemma all_indices_eq: "all_indices n = Some [0..<n]"
proof -
  have "\<exists>t. for_each [0..<n] (\<lambda>i ind. put ind i i) (replicate n 0) = Some t
          \<and> (length t = n \<and> (\<forall>j<n. t ! j = j))"
    by (rule for_each_rule [where I = "\<lambda>i t. length t = n \<and> (\<forall>j<i. t ! j = j)"])
       (auto simp: put_def nth_list_update less_Suc_eq)
  then obtain t where t: "for_each [0..<n] (\<lambda>i ind. put ind i i) (replicate n 0) = Some t"
    "length t = n" "\<forall>j<n. t ! j = j" by auto
  have "t = [0..<n]" using t(2,3) by (intro nth_equalityI) simp_all
  then show ?thesis using t(1) by (simp add: all_indices_def)
qed

lemma heap_top_le:
  assumes "heap_from key 0 h" "a \<in> set h"
  shows "key (h ! 0) \<le> key a"
  using assms heap_from_top [OF assms(1)] by (auto simp: in_set_conv_nth)

lemma count_take_Suc:
  "i < length rel \<Longrightarrow>
     count (mset (take (Suc i) rel)) v = count (mset (take i rel)) v + (if rel ! i = v then 1 else 0)"
  by (simp add: take_Suc_conv_app_nth)

lemma count_take_le: "count (mset (take i rel)) v \<le> count (mset rel) v"
proof -
  have "mset rel = mset (take i rel) + mset (drop i rel)"
    by (metis append_take_drop_id mset_append)
  then show ?thesis by simp
qed

lemma collect_topk_ok:
  assumes R: "topk_of H (mset rel) k" and n: "n = length rel"
  shows "i \<le> n \<Longrightarrow> collect_inv rel H i h ind \<Longrightarrow>
           \<exists>res. collect_topk rel [i..<n] h ind = Some res \<and> sorted_wrt (<) res
              \<and> set res \<subseteq> {..<n} \<and> mset (map ((!) rel) res) = H"
proof (induction "n - i" arbitrary: i h ind)
  case 0
  then have i: "i = n" by simp
  let ?G = "mset (map ((!) rel) ind)"
  have a: "count ?G v = min (count (mset rel) v) (count H v)" for v
    using 0(3) i n by (simp add: collect_inv_def)
  have b: "count H v \<le> count (mset rel) v" for v
    using R by (simp add: topk_of_def mset_subset_eq_count)
  have "?G = H"
  proof (rule multiset_eqI)
    fix v show "count ?G v = count H v" using a [of v] b [of v] by simp
  qed
  then show ?case using 0(3) i by (simp add: collect_inv_def)
next
  case (Suc m)
  then have i: "i < n" by simp
  let ?x = "rel ! i"
  let ?G = "mset (map ((!) rel) ind)"
  let ?P = "mset (take i rel)"
  note inv = Suc.prems(2) [unfolded collect_inv_def]
  have s: "sorted_wrt (<) ind" "set ind \<subseteq> {..<i}" and hn: "h \<noteq> []"
    and hp: "heap_from (\<lambda>x. x) 0 h" using inv by simp_all
  have g: "count ?G v = min (count ?P v) (count H v)" for v using inv by blast
  have h2: "count (mset h) v \<le> count H v" for v using inv by blast
  have h3: "count H v \<le> count (mset h) v + count ?G v" for v using inv by blast
  have h4: "count H v < count (mset h) v + count ?G v \<Longrightarrow> \<exists>m\<in>#H. m < v" for v using inv by blast
  have HR: "count H v \<le> count (mset rel) v" for v
    using R by (simp add: topk_of_def mset_subset_eq_count)
  have top: "\<forall>a\<in>#H. \<forall>y\<in>#mset rel - H. y \<le> a" using R by (simp add: topk_of_def)
  have hmin: "h ! 0 \<le> a" if "a \<in># mset h" for a using heap_top_le [OF hp, of a] that by simp
  have h0: "h ! 0 \<in># mset h" using hn by (cases h) simp_all
  have h0c: "0 < count (mset h) (h ! 0)" using h0 by simp
  have h0H: "h ! 0 \<in># H"
  proof -
    have "0 < count H (h ! 0)" using h0c h2 [of "h ! 0"] by linarith
    then show ?thesis by simp
  qed
  have P': "count (mset (take (Suc i) rel)) v = count ?P v + (if ?x = v then 1 else 0)" for v
    using i n by (simp add: count_take_Suc)
  have up: "[i..<n] = i # [Suc i..<n]" using i by (simp add: upt_conv_Cons)
  have gets: "get rel i = Some ?x" "get h 0 = Some (h ! 0)" using i n hn by (simp_all add: get_def)
  have s': "sorted_wrt (<) (ind @ [i])" "set (ind @ [i]) \<subseteq> {..<Suc i}"
    using s by (auto simp: sorted_wrt_append)
  have m: "m = n - Suc i" "Suc i \<le> n" using Suc.hyps(2) i by simp_all
  show ?case
  proof (cases "count ?P ?x < count H ?x")
    case push: True
    have Gx: "count ?G ?x = count ?P ?x" using g [of ?x] push by simp
    have xc: "0 < count (mset h) ?x" using h3 [of ?x] Gx push by linarith
    then have xh: "?x \<in># mset h" by (simp only: count_greater_zero_iff)
    then have ge: "h ! 0 \<le> ?x" using hmin by simp
    have g': "count (mset (map ((!) rel) (ind @ [i]))) v
                = min (count (mset (take (Suc i) rel)) v) (count H v)" for v
      using g [of v] push by (cases "?x = v") (auto simp: P')
    show ?thesis
    proof (cases "?x = h ! 0")
      case True
      from pop_heap [OF hp hn]
      obtain h' where h': "pop (<) h = Some h'" "heap_from (\<lambda>x. x) 0 h'"
        "Suc (length h') = length h" "mset h' = mset h - {#h ! 0#}" by auto
      have ch': "count (mset h') v = count (mset h) v - (if ?x = v then 1 else 0)" for v
        using h'(4) True by simp
      have eq: "collect_topk rel [i..<n] h ind =
                  (if h' = [] then Some (ind @ [i]) else collect_topk rel [Suc i..<n] h' (ind @ [i]))"
        unfolding up using gets True h'(1) by simp
      show ?thesis
      proof (cases "h' = []")
        case e: True
        have "mset (map ((!) rel) (ind @ [i])) = H"
        proof (rule multiset_eqI)
          fix v
          have "count (mset h) v = (if ?x = v then 1 else 0)"
            using ch' [of v] e xc by (cases "?x = v") (simp_all del: count_greater_zero_iff)
          then show "count (mset (map ((!) rel) (ind @ [i]))) v = count H v"
            using g' [of v] h3 [of v] by (auto simp: min_def split: if_splits)
        qed
        then show ?thesis using eq e s' i by auto
      next
        case ne: False
        have "collect_inv rel H (Suc i) h' (ind @ [i])"
          unfolding collect_inv_def
        proof (intro conjI allI impI)
          fix v
          show "count (mset (map ((!) rel) (ind @ [i]))) v
                  = min (count (mset (take (Suc i) rel)) v) (count H v)" by (rule g')
          show "count (mset h') v \<le> count H v" using h2 [of v] ch' [of v] by simp
          have sum: "count (mset h') v + count (mset (map ((!) rel) (ind @ [i]))) v
                  = count (mset h) v + count ?G v"
            using ch' [of v] xc by (cases "?x = v") (simp_all del: count_greater_zero_iff)
          show "count H v \<le> count (mset h') v + count (mset (map ((!) rel) (ind @ [i]))) v"
            unfolding sum by (rule h3)
          assume "count H v < count (mset h') v + count (mset (map ((!) rel) (ind @ [i]))) v"
          then show "\<exists>m\<in>#H. m < v" unfolding sum by (rule h4)
        qed (use s' ne h'(2) in simp_all)
        from Suc.hyps(1) [OF m this] show ?thesis using eq ne by simp
      qed
    next
      case False
      then have lt: "h ! 0 < ?x" using ge by simp
      have eq: "collect_topk rel [i..<n] h ind = collect_topk rel [Suc i..<n] h (ind @ [i])"
        unfolding up using gets False lt by simp
      have "collect_inv rel H (Suc i) h (ind @ [i])"
        unfolding collect_inv_def
      proof (intro conjI allI impI)
        fix v
        show "count (mset (map ((!) rel) (ind @ [i]))) v
                = min (count (mset (take (Suc i) rel)) v) (count H v)" by (rule g')
        show "count (mset h) v \<le> count H v" by (rule h2)
        show "count H v \<le> count (mset h) v + count (mset (map ((!) rel) (ind @ [i]))) v"
          using h3 [of v] by simp
        assume a: "count H v < count (mset h) v + count (mset (map ((!) rel) (ind @ [i]))) v"
        show "\<exists>m\<in>#H. m < v"
        proof (cases "v = ?x")
          case True
          then show ?thesis using h0H lt by blast
        next
          case False
          then show ?thesis using a h4 [of v] by simp
        qed
      qed (use s' hn hp in simp_all)
      from Suc.hyps(1) [OF m this] show ?thesis using eq by simp
    qed
  next
    case skip: False
    have "count H ?x < count (mset rel) ?x"
      using skip count_take_le [of "Suc i" rel ?x] by (simp add: P')
    then have "0 < count (mset rel - H) ?x" by (simp del: count_greater_zero_iff)
    then have xRH: "?x \<in># mset rel - H" by (simp only: count_greater_zero_iff)
    have le: "?x \<le> h ! 0" using top h0H xRH by blast
    have "?x \<noteq> h ! 0"
    proof
      assume e: "?x = h ! 0"
      have "count ?G ?x = count H ?x" using g [of ?x] skip by simp
      moreover have "0 < count (mset h) ?x" using h0c e by simp
      ultimately have "count H ?x < count (mset h) ?x + count ?G ?x" by linarith
      then have "\<exists>m\<in>#H. m < ?x" by (rule h4)
      then show False using top xRH by force
    qed
    then have lt: "?x < h ! 0" using le by simp
    have eq: "collect_topk rel [i..<n] h ind = collect_topk rel [Suc i..<n] h ind"
      unfolding up using gets lt by simp
    have "collect_inv rel H (Suc i) h ind"
      unfolding collect_inv_def
    proof (intro conjI allI impI)
      fix v
      show "count ?G v = min (count (mset (take (Suc i) rel)) v) (count H v)"
        using g [of v] skip by (cases "?x = v") (auto simp: P')
      show "count (mset h) v \<le> count H v" by (rule h2)
      show "count H v \<le> count (mset h) v + count ?G v" by (rule h3)
      assume "count H v < count (mset h) v + count ?G v"
      then show "\<exists>m\<in>#H. m < v" by (rule h4)
    qed (use s hn hp in auto)
    from Suc.hyps(1) [OF m this] show ?thesis using eq by simp
  qed
qed

lemma for_each_down_rule:
  assumes "a \<le> b" and "I b s"
    and "\<And>i t. a \<le> i \<Longrightarrow> i < b \<Longrightarrow> I (Suc i) t \<Longrightarrow> \<exists>t'. body i t = Some t' \<and> I i t'"
  shows "\<exists>t. for_each (rev [a..<b]) body s = Some t \<and> I a t"
  using assms
proof (induction b arbitrary: s)
  case 0
  then show ?case by simp
next
  case (Suc b)
  show ?case
  proof (cases "a = Suc b")
    case True
    then show ?thesis using Suc.prems(2) by simp
  next
    case False
    then have ab: "a \<le> b" using Suc.prems(1) by simp
    obtain t where t: "body b s = Some t" "I b t"
      using Suc.prems(3) [OF ab _ Suc.prems(2)] by auto
    have "\<exists>u. for_each (rev [a..<b]) body t = Some u \<and> I a u"
      using Suc.IH [OF ab t(2)] Suc.prems(3) by (meson less_Suc_eq)
    then show ?thesis using t(1) ab by simp
  qed
qed

lemma topk_of_self: "topk_of H H (size H)"
  by (simp add: topk_of_def)

lemma fill_heap:
  assumes "k \<le> length rel"
  shows "for_each [0..<k] (\<lambda>i heap. do { r \<leftarrow> get rel i; put heap i r }) (replicate k 0)
           = Some (take k rel)"
proof -
  have "\<exists>t. for_each [0..<k] (\<lambda>i heap. do { r \<leftarrow> get rel i; put heap i r }) (replicate k 0) = Some t
          \<and> (length t = k \<and> (\<forall>j<k. t ! j = rel ! j))"
    using assms
    by (intro for_each_rule [where I = "\<lambda>i t. length t = k \<and> (\<forall>j<i. t ! j = rel ! j)"])
       (auto simp: put_def get_def nth_list_update less_Suc_eq)
  then obtain t where t: "for_each [0..<k] (\<lambda>i heap. do { r \<leftarrow> get rel i; put heap i r })
      (replicate k 0) = Some t" "length t = k" "\<forall>j<k. t ! j = rel ! j" by auto
  have "t = take k rel" using t(2,3) assms by (intro nth_equalityI) simp_all
  then show ?thesis using t(1) by simp
qed

lemma mset_take_Suc:
  "i < length rel \<Longrightarrow> mset (take (Suc i) rel) = mset (take i rel) + {#rel ! i#}"
  by (simp add: take_Suc_conv_app_nth)

lemma topk_pass:
  assumes n: "n = length rel" and k: "1 \<le> k" "k \<le> n"
    and h: "length h = k" "heap_from (\<lambda>x. x) 0 h" "topk_of (mset h) (mset (take k rel)) k"
  shows "\<exists>t. for_each [k..<n] (\<lambda>i heap. do {
                  r \<leftarrow> get rel i;
                  h0 \<leftarrow> get heap 0;
                  if r < h0 then Some heap else replace (<) heap r
                }) h = Some t
           \<and> (length t = k \<and> heap_from (\<lambda>x. x) 0 t \<and> topk_of (mset t) (mset (take n rel)) k)"
proof (rule for_each_rule [where I = "\<lambda>i t. length t = k \<and> heap_from (\<lambda>x. x) 0 t
          \<and> topk_of (mset t) (mset (take i rel)) k"])
  show "k \<le> n" by (rule k(2))
  show "length h = k \<and> heap_from (\<lambda>x. x) 0 h \<and> topk_of (mset h) (mset (take k rel)) k"
    using h by simp
next
  fix i t
  assume i: "k \<le> i" "i < n"
    and inv: "length t = k \<and> heap_from (\<lambda>x. x) 0 t \<and> topk_of (mset t) (mset (take i rel)) k"
  then have t: "length t = k" "heap_from (\<lambda>x. x) 0 t" "topk_of (mset t) (mset (take i rel)) k"
    and tn: "t \<noteq> []" using k(1) by auto
  have gets: "get rel i = Some (rel ! i)" "get t 0 = Some (t ! 0)"
    using i n tn by (simp_all add: get_def)
  have tmin: "\<forall>a\<in>#mset t. t ! 0 \<le> a" using heap_top_le [OF t(2)] by simp
  have t0: "t ! 0 \<in># mset t" using tn by (cases t) simp_all
  have S: "mset (take (Suc i) rel) = mset (take i rel) + {#rel ! i#}"
    using i n by (simp add: mset_take_Suc)
  show "\<exists>t'. (do { r \<leftarrow> get rel i; h0 \<leftarrow> get t 0;
                   if r < h0 then Some t else replace (<) t r }) = Some t'
          \<and> (length t' = k \<and> heap_from (\<lambda>x. x) 0 t' \<and> topk_of (mset t') (mset (take (Suc i) rel)) k)"
  proof (cases "rel ! i < t ! 0")
    case True
    then have "\<forall>a\<in>#mset t. rel ! i \<le> a" using tmin by fastforce
    from topk_skip [OF t(3) this] show ?thesis using gets True t S by simp
  next
    case False
    from replace_heap [OF t(2) tn, of "rel ! i"]
    obtain t' where t': "replace (<) t (rel ! i) = Some t'" "heap_from (\<lambda>x. x) 0 t'"
      "length t' = length t" "mset t' = mset t - {#t ! 0#} + {#rel ! i#}" by auto
    have "topk_of (mset t') (mset (take (Suc i) rel)) k"
      unfolding t'(4) S using False by (intro topk_replace [OF t(3) t0 tmin]) simp
    then show ?thesis using gets False t' t by simp
  qed
qed

lemma PrunerTopk_ok:
  assumes n: "n = length rel" and k: "1 \<le> k"
  shows "\<exists>res. PrunerTopk k rel n mm = Some res \<and> sorted_wrt (<) res \<and> set res \<subseteq> {..<n}
           \<and> length res = min k n
           \<and> topk_of (mset (map ((!) rel) res)) (mset rel) (min k n)"
proof (cases "n \<le> k")
  case True
  have "map ((!) rel) [0..<n] = rel" using n by (simp add: map_nth)
  then have "topk_of (mset (map ((!) rel) [0..<n])) (mset rel) (min k n)"
    using topk_of_self [of "mset rel"] True n by (simp add: min_def)
  then show ?thesis
    using True by (auto simp: PrunerTopk_def all_indices_eq strict_sorted_iff [symmetric]
        sorted_wrt_upt min_def)
next
  case False
  then have kn: "k \<le> n" "k < n" by simp_all
  let ?h = "heapify (<) (take k rel)"
  have f: "for_each [0..<k] (\<lambda>i heap. do { r \<leftarrow> get rel i; put heap i r }) (replicate k 0)
             = Some (take k rel)"
    using kn n by (intro fill_heap) simp
  have hh: "length ?h = k" "heap_from (\<lambda>x. x) 0 ?h" "mset ?h = mset (take k rel)"
    using kn n heap_from_heapify [of "\<lambda>x. x" "take k rel"]
    by (simp_all add: length_heapify mset_heapify)
  have "topk_of (mset ?h) (mset (take k rel)) k"
    using topk_of_self [of "mset (take k rel)"] hh(3) kn n by simp
  from topk_pass [OF n k kn(1) hh(1,2) this]
  obtain t where t: "for_each [k..<n] (\<lambda>i heap. do {
                  r \<leftarrow> get rel i;
                  h0 \<leftarrow> get heap 0;
                  if r < h0 then Some heap else replace (<) heap r
                }) ?h = Some t"
    "length t = k" "heap_from (\<lambda>x. x) 0 t" "topk_of (mset t) (mset (take n rel)) k" by auto
  have tk: "topk_of (mset t) (mset rel) k" using t(4) n by simp
  have "collect_inv rel (mset t) 0 t []"
    using t(2,3) k by (auto simp: collect_inv_def)
  from collect_topk_ok [OF tk n _ this]
  obtain res where res: "collect_topk rel [0..<n] t [] = Some res" "sorted_wrt (<) res"
    "set res \<subseteq> {..<n}" "mset (map ((!) rel) res) = mset t" by auto
  have "length res = k" using res(4) t(2) by (metis length_map size_mset)
  moreover have "PrunerTopk k rel n mm = Some res"
    using False f t(1) res(1) by (simp add: PrunerTopk_def)
  ultimately show ?thesis using res tk kn by (simp add: min_def)
qed

subsection \<open>The optimized top-k pruner\<close>

lemma relpos_comparator_relevance_eq:
  "relpos_comparator_relevance = (\<lambda>a b. relevance a < relevance b)"
  by (intro ext) (simp add: relpos_comparator_relevance_def)

lemma relpos_inv_mset:
  assumes "relpos_inv rel n k i h" "mset h' = mset h"
  shows "relpos_inv rel n k i h'"
proof -
  have "set h' = set h" using assms(2) by (rule mset_eq_setD)
  moreover have "length h' = length h" using assms(2) by (rule mset_eq_length)
  moreover have "mset (map position h') = mset (map position h)"
    and "mset (map relevance h') = mset (map relevance h)" using assms(2) by simp_all
  moreover from this(1) have "distinct (map position h') \<longleftrightarrow> distinct (map position h)"
    by (rule mset_eq_imp_distinct_iff)
  ultimately show ?thesis using assms(1) by (simp add: relpos_inv_def)
qed

lemma seed_heap:
  assumes n: "n = length rel" and k: "k \<le> n"
  shows "\<exists>h. for_each (rev [n - k..<n]) (\<lambda>i heap. do {
                  r \<leftarrow> get rel i;
                  Some (heap @ [\<lparr>relevance = r, position = i\<rparr>])
                }) [] = Some h \<and> relpos_inv rel n k (n - k) h"
proof -
  let ?I = "\<lambda>i (h :: relpos_pair_type list). length h = n - i
     \<and> (\<forall>p\<in>set h. relevance p = rel ! position p \<and> i \<le> position p \<and> position p < n)
     \<and> distinct (map position h) \<and> mset (map relevance h) = mset (drop i rel)"
  have "\<exists>h. for_each (rev [n - k..<n]) (\<lambda>i heap. do {
                  r \<leftarrow> get rel i;
                  Some (heap @ [\<lparr>relevance = r, position = i\<rparr>])
                }) [] = Some h \<and> ?I (n - k) h"
  proof (rule for_each_down_rule [where I = ?I])
    show "n - k \<le> n" by simp
    show "?I n []" using n by simp
  next
    fix i t assume i: "n - k \<le> i" "i < n" and t: "?I (Suc i) t"
    have d: "drop i rel = rel ! i # drop (Suc i) rel"
      using i n by (simp add: Cons_nth_drop_Suc)
    have "?I i (t @ [\<lparr>relevance = rel ! i, position = i\<rparr>])"
      using t i by (auto simp: d)
    then show "\<exists>t'. (do { r \<leftarrow> get rel i;
                   Some (t @ [\<lparr>relevance = r, position = i\<rparr>]) }) = Some t' \<and> ?I i t'"
      using i n by (simp add: get_def)
  qed
  then obtain h where h: "for_each (rev [n - k..<n]) (\<lambda>i heap. do {
                  r \<leftarrow> get rel i;
                  Some (heap @ [\<lparr>relevance = r, position = i\<rparr>])
                }) [] = Some h" "?I (n - k) h" by blast
  have "length h = k" using h(2) k by simp
  then have "size (mset (map relevance h)) = k" by simp
  then have "topk_of (mset (map relevance h)) (mset (drop (n - k) rel)) k"
    using topk_of_self [of "mset (map relevance h)"] h(2) by simp
  then show ?thesis using h \<open>length h = k\<close> by (auto simp: relpos_inv_def)
qed

lemma relpos_pass:
  assumes n: "n = length rel" and k: "1 \<le> k" "k \<le> n"
    and h: "relpos_inv rel n k (n - k) h" "heap_from relevance 0 h"
  shows "\<exists>t. for_each (rev [0..<n - k]) (\<lambda>i heap. do {
                  r \<leftarrow> get rel i;
                  h0 \<leftarrow> get heap 0;
                  if r < relevance h0 then Some heap
                  else replace relpos_comparator_relevance heap \<lparr>relevance = r, position = i\<rparr>
                }) h = Some t
           \<and> (relpos_inv rel n k 0 t \<and> heap_from relevance 0 t)"
proof (rule for_each_down_rule [where I = "\<lambda>i t. relpos_inv rel n k i t \<and> heap_from relevance 0 t"])
  show "0 \<le> n - k" by simp
  show "relpos_inv rel n k (n - k) h \<and> heap_from relevance 0 h" using h by simp
next
  fix i t
  assume i: "0 \<le> i" "i < n - k"
    and inv: "relpos_inv rel n k (Suc i) t \<and> heap_from relevance 0 t"
  note r = inv [THEN conjunct1, unfolded relpos_inv_def]
  have hp: "heap_from relevance 0 t" using inv by simp
  have tn: "t \<noteq> []" using r k(1) by auto
  have len: "length t = k" using r by simp
  have el: "\<forall>p\<in>set t. relevance p = rel ! position p \<and> Suc i \<le> position p \<and> position p < n"
    using r by blast
  have dis: "distinct (map position t)" using r by blast
  have top: "topk_of (mset (map relevance t)) (mset (drop (Suc i) rel)) k" using r by blast
  have iN: "i < n" using i by simp
  have gets: "get rel i = Some (rel ! i)" "get t 0 = Some (t ! 0)"
    using iN n tn by (simp_all add: get_def)
  have d: "mset (drop i rel) = mset (drop (Suc i) rel) + {#rel ! i#}"
    using iN n by (simp add: Cons_nth_drop_Suc [symmetric])
  have tmin: "\<forall>a\<in>#mset (map relevance t). relevance (t ! 0) \<le> a"
    using heap_top_le [OF hp] by auto
  have t0: "t ! 0 \<in> set t" using tn by (cases t) simp_all
  let ?new = "\<lparr>relevance = rel ! i, position = i\<rparr>"
  have el': "\<forall>p\<in>set t. relevance p = rel ! position p \<and> i \<le> position p \<and> position p < n"
  proof
    fix p assume "p \<in> set t"
    then have "relevance p = rel ! position p \<and> Suc i \<le> position p \<and> position p < n"
      using el by (rule bspec [rotated])
    then show "relevance p = rel ! position p \<and> i \<le> position p \<and> position p < n" by simp
  qed
  have m0: "relevance (t ! 0) \<in># mset (map relevance t)" using t0 by simp
  show "\<exists>t'. (do { r \<leftarrow> get rel i; h0 \<leftarrow> get t 0;
                   if r < relevance h0 then Some t
                   else replace relpos_comparator_relevance t \<lparr>relevance = r, position = i\<rparr> })
              = Some t'
          \<and> (relpos_inv rel n k i t' \<and> heap_from relevance 0 t')"
  proof (cases "rel ! i < relevance (t ! 0)")
    case True
    have "\<forall>a\<in>#mset (map relevance t). rel ! i \<le> a"
    proof
      fix a assume "a \<in># mset (map relevance t)"
      then have "relevance (t ! 0) \<le> a" using tmin by (rule bspec [rotated])
      then show "rel ! i \<le> a" using True by simp
    qed
    from topk_skip [OF top this]
    have ts: "topk_of (mset (map relevance t)) (mset (drop (Suc i) rel) + {#rel ! i#}) k" .
    have "relpos_inv rel n k i t"
      unfolding relpos_inv_def d using len el' dis ts by blast
    then show ?thesis using hp by (simp add: gets True)
  next
    case False
    then have ge: "relevance (t ! 0) \<le> rel ! i" by simp
    from replace_heap [OF hp tn, of ?new]
    obtain t' where t': "replace relpos_comparator_relevance t ?new = Some t'"
      "heap_from relevance 0 t'" "length t' = length t"
      "mset t' = mset t - {#t ! 0#} + {#?new#}"
      unfolding relpos_comparator_relevance_eq by blast
    let ?r = "remove1 (t ! 0) t"
    let ?l = "?new # ?r"
    have mr: "mset ?r = mset t - {#t ! 0#}" by simp
    have ml: "mset t' = mset ?l" unfolding t'(4) by simp
    have sub: "set ?r \<subseteq> set t" by (rule set_remove1_subset)
    have "distinct t" "inj_on position (set t)" using dis by (simp_all add: distinct_map)
    then have "distinct ?r" "inj_on position (set ?r)"
      using sub by (simp_all add: inj_on_subset)
    then have dr: "distinct (map position ?r)" by (simp add: distinct_map)
    have ni: "i \<notin> position ` set ?r"
    proof
      assume "i \<in> position ` set ?r"
      then obtain p where p: "p \<in> set ?r" "position p = i" by auto
      then have "p \<in> set t" using sub by blast
      then have "Suc i \<le> position p" using el by blast
      then show False using p(2) by simp
    qed
    have dl: "distinct (map position ?l)" using dr ni by simp
    have lr: "length ?r = length t - 1" using t0 by (simp add: length_remove1)
    have ll: "length ?l = k" using lr len k(1) by simp
    have ell: "\<forall>p\<in>set ?l. relevance p = rel ! position p \<and> i \<le> position p \<and> position p < n"
    proof
      fix p assume "p \<in> set ?l"
      then have "p = ?new \<or> p \<in> set t" using sub by auto
      then show "relevance p = rel ! position p \<and> i \<le> position p \<and> position p < n"
      proof
        assume "p = ?new" then show ?thesis using iN by simp
      next
        assume "p \<in> set t" then show ?thesis using el' by blast
      qed
    qed
    have "mset (map relevance ?r) = mset (map relevance t) - {#relevance (t ! 0)#}"
      using t0 by (simp add: image_mset_Diff)
    then have mrel: "mset (map relevance ?l)
                 = mset (map relevance t) - {#relevance (t ! 0)#} + {#rel ! i#}" by simp
    have "topk_of (mset (map relevance t) - {#relevance (t ! 0)#} + {#rel ! i#})
                     (mset (drop (Suc i) rel) + {#rel ! i#}) k"
      by (rule topk_replace [OF top m0 tmin ge])
    then have tl: "topk_of (mset (map relevance ?l)) (mset (drop i rel)) k"
      unfolding mrel d .
    have "relpos_inv rel n k i ?l"
      unfolding relpos_inv_def using ll ell dl tl by blast
    from relpos_inv_mset [OF this ml] show ?thesis using t'(1,2) by (simp add: gets False)
  qed
qed

lemma emit_positions:
  "for_each [0..<length xs] (\<lambda>i ind. do { p \<leftarrow> get xs i; put ind i (f p) })
      (replicate (length xs) 0) = Some (map f xs)"
proof -
  let ?n = "length xs"
  have "\<exists>t. for_each [0..<?n] (\<lambda>i ind. do { p \<leftarrow> get xs i; put ind i (f p) })
               (replicate ?n 0) = Some t
          \<and> (length t = ?n \<and> (\<forall>j<?n. t ! j = f (xs ! j)))"
    by (intro for_each_rule [where I = "\<lambda>i t. length t = ?n \<and> (\<forall>j<i. t ! j = f (xs ! j))"])
       (auto simp: put_def get_def nth_list_update less_Suc_eq)
  then obtain t where t: "for_each [0..<?n] (\<lambda>i ind. do { p \<leftarrow> get xs i; put ind i (f p) })
      (replicate ?n 0) = Some t" "length t = ?n" "\<forall>j<?n. t ! j = f (xs ! j)" by auto
  have "t = map f xs" using t(2,3) by (intro nth_equalityI) simp_all
  then show ?thesis using t(1) by simp
qed

lemma PrunerTopkOptimized_ok:
  assumes n: "n = length rel" and k: "1 \<le> k"
  shows "\<exists>res. PrunerTopkOptimized k rel n mm = Some res \<and> sorted_wrt (<) res
           \<and> set res \<subseteq> {..<n} \<and> length res = min k n
           \<and> topk_of (mset (map ((!) rel) res)) (mset rel) (min k n)"
proof (cases "n \<le> k")
  case True
  have "map ((!) rel) [0..<n] = rel" using n by (simp add: map_nth)
  then have "topk_of (mset (map ((!) rel) [0..<n])) (mset rel) (min k n)"
    using topk_of_self [of "mset rel"] True n by (simp add: min_def)
  then show ?thesis
    using True by (auto simp: PrunerTopkOptimized_def all_indices_eq strict_sorted_iff [symmetric]
        sorted_wrt_upt min_def)
next
  case False
  then have kn: "k \<le> n" by simp
  from seed_heap [OF n kn]
  obtain h where h: "for_each (rev [n - k..<n]) (\<lambda>i heap. do {
                  r \<leftarrow> get rel i;
                  Some (heap @ [\<lparr>relevance = r, position = i\<rparr>])
                }) [] = Some h" "relpos_inv rel n k (n - k) h" by blast
  let ?h = "heapify relpos_comparator_relevance h"
  have hh: "relpos_inv rel n k (n - k) ?h" "heap_from relevance 0 ?h"
    using relpos_inv_mset [OF h(2), of ?h] heap_from_heapify [of relevance h]
    by (simp_all add: mset_heapify relpos_comparator_relevance_eq)
  from relpos_pass [OF n k kn hh]
  obtain t where t: "for_each (rev [0..<n - k]) (\<lambda>i heap. do {
                  r \<leftarrow> get rel i;
                  h0 \<leftarrow> get heap 0;
                  if r < relevance h0 then Some heap
                  else replace relpos_comparator_relevance heap \<lparr>relevance = r, position = i\<rparr>
                }) ?h = Some t" "relpos_inv rel n k 0 t" by blast
  let ?s = "sort_key position t"
  have s: "relpos_inv rel n k 0 ?s" using relpos_inv_mset [OF t(2), of ?s] by simp
  note r = s [unfolded relpos_inv_def]
  let ?res = "map position ?s"
  have run: "PrunerTopkOptimized k rel n mm = Some ?res"
    using False h(1) t(1) by (simp add: PrunerTopkOptimized_def emit_positions)
  have "sorted ?res" by (rule sorted_sort_key)
  moreover have "distinct ?res" using r by blast
  ultimately have so: "sorted_wrt (<) ?res" by (simp add: strict_sorted_iff)
  have el: "\<forall>p\<in>set ?s. relevance p = rel ! position p \<and> position p < n" using r by blast
  then have e: "map ((!) rel) ?res = map relevance ?s" by simp
  have "topk_of (mset (map relevance ?s)) (mset rel) k" using r by simp
  then have "topk_of (mset (map ((!) rel) ?res)) (mset rel) k" unfolding e .
  then have "topk_of (mset (map ((!) rel) ?res)) (mset rel) (min k n)"
    using kn by (simp only: min_def if_True)
  moreover have "length ?res = min k n" using r kn by (simp add: min_def)
  moreover have "set ?res \<subseteq> {..<n}" using el by auto
  ultimately show ?thesis using run so by blast
qed

subsection \<open>The two top-k pruners: the claim\<close>

lemmas heap_eval = percolate_down.simps [of _ "_ # _"] percolate_down.simps [of _ "[]"] smallest_of_def left_def parent_def
  heapify_def replace_def pop_def put_def

text \<open>
  Claim C7. For a list of \<open>n\<close> relevances and \<open>k \<ge> 1\<close>, the straightforward and the
  optimized top-k pruner both return \<open>min k n\<close> strictly increasing indices of the list, the
  relevances at the indices of the one and of the other are the same multiset, and this
  multiset holds \<open>min k n\<close> largest relevances of the list. The indices themselves may
  differ on ties: on four relevances 1 with \<open>k = 2\<close> the first returns 0, 1 and the second 0, 2.
\<close>

theorem topk_pruners_agree:
  assumes "n = length rel_list" "1 \<le> k"
  shows "(\<exists>s1 s2. PrunerTopk k rel_list n mm = Some s1
            \<and> PrunerTopkOptimized k rel_list n mm = Some s2
            \<and> length s1 = min k n \<and> length s2 = min k n
            \<and> sorted_wrt (<) s1 \<and> sorted_wrt (<) s2
            \<and> set s1 \<subseteq> {..<n} \<and> set s2 \<subseteq> {..<n}
            \<and> mset (map ((!) rel_list) s1) = mset (map ((!) rel_list) s2)
            \<and> topk_of (mset (map ((!) rel_list) s1)) (mset rel_list) (min k n))
         \<and> PrunerTopk 2 [1, 1, 1, 1] 4 mm = Some [0, 1]
         \<and> PrunerTopkOptimized 2 [1, 1, 1, 1] 4 mm = Some [0, 2]"
proof (intro conjI)
  from PrunerTopk_ok [OF assms, of mm]
  obtain s1 where s1: "PrunerTopk k rel_list n mm = Some s1" "sorted_wrt (<) s1"
    "set s1 \<subseteq> {..<n}" "length s1 = min k n"
    "topk_of (mset (map ((!) rel_list) s1)) (mset rel_list) (min k n)" by blast
  from PrunerTopkOptimized_ok [OF assms, of mm]
  obtain s2 where s2: "PrunerTopkOptimized k rel_list n mm = Some s2" "sorted_wrt (<) s2"
    "set s2 \<subseteq> {..<n}" "length s2 = min k n"
    "topk_of (mset (map ((!) rel_list) s2)) (mset rel_list) (min k n)" by blast
  have "mset (map ((!) rel_list) s1) = mset (map ((!) rel_list) s2)"
    using topk_unique [OF s1(5) s2(5)] .
  then show "\<exists>s1 s2. PrunerTopk k rel_list n mm = Some s1
            \<and> PrunerTopkOptimized k rel_list n mm = Some s2
            \<and> length s1 = min k n \<and> length s2 = min k n
            \<and> sorted_wrt (<) s1 \<and> sorted_wrt (<) s2
            \<and> set s1 \<subseteq> {..<n} \<and> set s2 \<subseteq> {..<n}
            \<and> mset (map ((!) rel_list) s1) = mset (map ((!) rel_list) s2)
            \<and> topk_of (mset (map ((!) rel_list) s1)) (mset rel_list) (min k n)"
    using s1 s2 by blast
next
  show "PrunerTopk 2 [1, 1, 1, 1] 4 mm = Some [0, 1]"
    by (simp add: PrunerTopk_def heap_eval array_eval Let_def cong: bind_weak_cong)
next
  show "PrunerTopkOptimized 2 [1, 1, 1, 1] 4 mm = Some [0, 2]"
    by (simp add: PrunerTopkOptimized_def relpos_comparator_relevance_def heap_eval array_eval
        Let_def cong: bind_weak_cong)
qed

theorem topk_pruners_agree_witness:
  "PrunerTopk 2 [3, 1, 2, 1] 4 \<lparr>min_rel = 1, max_rel = 3\<rparr> = Some [0, 2]
   \<and> PrunerTopkOptimized 2 [3, 1, 2, 1] 4 \<lparr>min_rel = 1, max_rel = 3\<rparr> = Some [0, 2]
   \<and> (\<exists>s1 s2. PrunerTopk 2 [3, 1, 2, 1] 4 \<lparr>min_rel = 1, max_rel = 3\<rparr> = Some s1
            \<and> PrunerTopkOptimized 2 [3, 1, 2, 1] 4 \<lparr>min_rel = 1, max_rel = 3\<rparr> = Some s2
            \<and> length s1 = 2 \<and> length s2 = 2
            \<and> mset (map ((!) [3, 1, 2, 1 :: real]) s1) = mset (map ((!) [3, 1, 2, 1]) s2))"
proof -
  let ?mm = "\<lparr>min_rel = 1, max_rel = 3\<rparr>"
  have a: "PrunerTopk 2 [3, 1, 2, 1] 4 ?mm = Some [0, 2]"
    by (simp add: PrunerTopk_def heap_eval array_eval Let_def cong: bind_weak_cong)
  have b: "PrunerTopkOptimized 2 [3, 1, 2, 1] 4 ?mm = Some [0, 2]"
    by (simp add: PrunerTopkOptimized_def relpos_comparator_relevance_def heap_eval array_eval
        Let_def cong: bind_weak_cong)
  have "\<exists>s1 s2. PrunerTopk 2 [3, 1, 2, 1] 4 ?mm = Some s1
            \<and> PrunerTopkOptimized 2 [3, 1, 2, 1] 4 ?mm = Some s2
            \<and> length s1 = 2 \<and> length s2 = 2
            \<and> mset (map ((!) [3, 1, 2, 1 :: real]) s1) = mset (map ((!) [3, 1, 2, 1]) s2)"
    using topk_pruners_agree [of 4 "[3, 1, 2, 1]" 2 ?mm] by (simp del: mset_map) blast
  then show ?thesis using a b by blast
qed

end
